theory Spec2Isabelle
  imports Complex_Main "HOL-Library.Word" "HOL-Library.Log_Nat"
begin

section \<open>Common JavaScript notions\<close>

text \<open>
  JavaScript numbers are IEEE 754 doubles. Where the program's arithmetic can round (the
  times of the playback scheduler, the positions and weights of the resampler) the values
  are doubles and every operation is rounded to the nearest double, as the program's is.
  Where it cannot round (the frame encoder scales a 32-bit float by an integer below
  \<open>2^16\<close>, the playback engine divides a 16-bit integer by a power of two) the values are
  reals and the operations exact. NaN and the infinities are not values of the model; where
  the program can produce one, the definition says what follows.
\<close>

datatype js_error = RangeError | NotSupportedError | TypeError | SyntaxError

type_synonym int16 = "16 word"
type_synonym byte = "8 word"
type_synonym ArrayBuffer = "byte list"

text \<open>Truncation towards zero, the first step of storing a number in a typed array.\<close>

definition js_trunc :: "real \<Rightarrow> int" where
  "js_trunc x = (if x < 0 then \<lceil>x\<rceil> else \<lfloor>x\<rfloor>)"

text \<open>
  Storing a finite number into an \<open>Int16Array\<close> element: truncate, then reduce modulo
  \<open>2^16\<close> (the conversion to a 16-bit word wraps around).
\<close>

definition ToInt16 :: "real \<Rightarrow> int16" where
  "ToInt16 x = word_of_int (js_trunc x)"

section \<open>Frame encoder: the PCM audio worklet processor\<close>

text \<open>
  \<open>floatTo16BitPCM(float32)\<close>:
  \<open>s = Math.max(-1, Math.min(1, float32)); return s < 0 ? s * 0x8000 : s * 0x7FFF\<close>.
\<close>

definition floatTo16BitPCM :: "real \<Rightarrow> real" where
  "floatTo16BitPCM float32 =
     (let s = max (- 1) (min 1 float32)
      in if s < 0 then s * 32768 else s * 32767)"

record PCMAudioProcessor =
  pcm_buffer :: "real list"
  bufferSize :: nat

definition PCMAudioProcessor_new :: PCMAudioProcessor where
  "PCMAudioProcessor_new = \<lparr>pcm_buffer = [], bufferSize = 4800\<rparr>"

text \<open>
  \<open>sendBuffer\<close> returns the processor and the \<open>Int16Array\<close> posted to the main thread
  (\<open>None\<close> when the buffer is empty and nothing is posted).
\<close>

definition sendBuffer :: "PCMAudioProcessor \<Rightarrow> PCMAudioProcessor \<times> int16 list option" where
  "sendBuffer p =
     (if length (pcm_buffer p) = 0 then (p, None)
      else (p\<lparr>pcm_buffer := []\<rparr>,
            Some (map (\<lambda>x. ToInt16 (floatTo16BitPCM x)) (pcm_buffer p))))"

text \<open>\<open>process\<close> on the first channel of the first input (\<open>None\<close>: no input).\<close>

definition process :: "real list option \<Rightarrow> PCMAudioProcessor \<Rightarrow> PCMAudioProcessor \<times> int16 list option" where
  "process input p =
     (case input of
        None \<Rightarrow> (p, None)
      | Some samples \<Rightarrow>
          (let p1 = p\<lparr>pcm_buffer := pcm_buffer p @ samples\<rparr>
           in if length (pcm_buffer p1) \<ge> bufferSize p1 then sendBuffer p1 else (p1, None)))"


section \<open>Double-precision arithmetic\<close>

text \<open>Rounding to the nearest integer, a tie to the even one.\<close>

definition round_half_even :: "real \<Rightarrow> int" where
  "round_half_even x =
     (let f = \<lfloor>x\<rfloor>; d = x - of_int f
      in if d < 1 / 2 then f else if 1 / 2 < d then f + 1 else if even f then f else f + 1)"

text \<open>The reciprocal of the smallest positive double, \<open>2^-1074\<close>.\<close>

definition subnormal_scale :: real where
  "subnormal_scale = 2 ^ 1074"

text \<open>
  The double nearest to a real, ties to even (IEEE 754 binary64, round to nearest). A
  double is an integer multiple of a power of two: of \<open>2^-1074\<close> below \<open>2^-1021\<close>
  (subnormal numbers and the first binade), and above it of the power of two that leaves
  53 significant bits. Overflow to an infinity is not part of this function; where the
  program can reach it, \<open>resample\<close> below says what happens.
\<close>

definition fl64_nonneg :: "real \<Rightarrow> real" where
  "fl64_nonneg x =
     (let s = x * subnormal_scale; n = \<lfloor>s\<rfloor>
      in if n < 2 ^ 53 then of_int (round_half_even s) / subnormal_scale
         else
           (let q = 2 ^ nat (bitlen n - 53)
            in of_int (round_half_even (s / q)) * q / subnormal_scale))"

definition fl64 :: "real \<Rightarrow> real" where
  "fl64 x = (if x < 0 then - fl64_nonneg (- x) else fl64_nonneg x)"

text \<open>
  The doubles, as a type: the reals that rounding returns. The exponent is not bounded
  above, so the type has values beyond the largest double; a sum of a time and a duration
  stays below them, a duration being far smaller than half a unit in the last place of the
  largest double. \<open>dbl\<close> rounds a real to a double, \<open>val\<close> is the real that a double is.
\<close>

typedef double = "range fl64"
  by blast

definition dbl :: "real \<Rightarrow> double" where
  "dbl x = Abs_double (fl64 x)"

definition val :: "double \<Rightarrow> real" where
  "val d = Rep_double d"

text \<open>Addition of doubles: the exact sum, rounded.\<close>

definition dadd :: "double \<Rightarrow> double \<Rightarrow> double" where
  "dadd a b = dbl (val a + val b)"

text \<open>The four operations on reals that are doubles: the exact result, rounded.\<close>

definition fadd :: "real \<Rightarrow> real \<Rightarrow> real" where
  "fadd a b = fl64 (a + b)"

definition fsub :: "real \<Rightarrow> real \<Rightarrow> real" where
  "fsub a b = fl64 (a - b)"

definition fmul :: "real \<Rightarrow> real \<Rightarrow> real" where
  "fmul a b = fl64 (a * b)"

definition fdiv :: "real \<Rightarrow> real \<Rightarrow> real" where
  "fdiv a b = fl64 (a / b)"

text \<open>\<open>Math.round\<close>: the nearest integer, halves towards plus infinity; its result is exact.\<close>

definition Math_round :: "real \<Rightarrow> int" where
  "Math_round x = \<lfloor>x + 1 / 2\<rfloor>"


section \<open>Resampler\<close>

text \<open>
  \<open>WebAudioRecorder.resample(input, sourceSampleRate, targetSampleRate)\<close>. A read of the
  input outside its bounds is \<open>undefined\<close>, the arithmetic on it NaN, and NaN is stored
  as 0. The samples, the loop counter, the floor of the source index and the array length
  are integers that doubles hold exactly; \<open>srcIndex\<close>, \<open>t\<close>, \<open>1 - t\<close>, the two products and
  their sum are rounded.
\<close>

definition sample_at :: "int16 list \<Rightarrow> int \<Rightarrow> real option" where
  "sample_at input k =
     (if 0 \<le> k \<and> k < int (length input) then Some (of_int (sint (input ! nat k))) else None)"

definition resample_sample :: "int16 list \<Rightarrow> real \<Rightarrow> nat \<Rightarrow> int16" where
  "resample_sample input ratio i =
     (let srcIndex = fmul (of_nat i) ratio;
          srcIndexFloor = \<lfloor>srcIndex\<rfloor>;
          srcIndexCeil = min (srcIndexFloor + 1) (int (length input) - 1);
          t = fsub srcIndex (of_int srcIndexFloor)
      in case (sample_at input srcIndexFloor, sample_at input srcIndexCeil) of
           (Some a, Some b) \<Rightarrow> ToInt16 (of_int (Math_round (fadd (fmul a (fsub 1 t)) (fmul b t))))
         | _ \<Rightarrow> 0)"

text \<open>
  The loop \<open>for (let i = 0; i < outputLength; i++) output[i] = ...\<close> over a zero-filled
  array, with the counter running upwards.
\<close>

function resample_loop :: "int16 list \<Rightarrow> real \<Rightarrow> nat \<Rightarrow> nat \<Rightarrow> int16 list \<Rightarrow> int16 list" where
  "resample_loop input ratio outputLength i output =
     (if i < outputLength
      then resample_loop input ratio outputLength (Suc i)
             (output[i := resample_sample input ratio i])
      else output)"
  by pat_completeness auto
termination
  by (relation "measure (\<lambda>(input, ratio, outputLength, i, output). outputLength - i)") auto

declare resample_loop.simps [simp del]

text \<open>
  The least magnitude that rounds to an infinity: the largest double plus half a unit in
  its last place.
\<close>

definition overflow_threshold :: real where
  "overflow_threshold = 2 ^ 1024 - 2 ^ 970"

text \<open>
  With a zero target rate, or a quotient of the rates that overflows, the ratio is an
  infinity, the requested length a zero, and the output empty. With a ratio that is zero
  (also by underflow) or negative the requested length is infinite, negative or, for an
  empty input, NaN or zero: \<open>new Int16Array\<close> raises unless the input is empty. It also
  raises on a length of \<open>2^53\<close> or more, which includes a quotient that overflows; the
  allocation of a shorter array is taken to succeed. The rates are finite numbers; an input
  of NaN or an infinity is not modelled.
\<close>

definition resample :: "int16 list \<Rightarrow> real \<Rightarrow> real \<Rightarrow> js_error + int16 list" where
  "resample input sourceSampleRate targetSampleRate =
     (if sourceSampleRate = targetSampleRate then Inr input
      else if targetSampleRate = 0 \<or> overflow_threshold \<le> \<bar>sourceSampleRate / targetSampleRate\<bar>
      then Inr []
      else
        (let ratio = fdiv sourceSampleRate targetSampleRate
         in if ratio \<le> 0 then (if input = [] then Inr [] else Inl RangeError)
            else
              (let quotient = fdiv (of_nat (length input)) ratio
               in if 2 ^ 53 \<le> quotient then Inl RangeError
                  else
                    (let outputLength = nat \<lfloor>quotient\<rfloor>
                     in Inr (resample_loop input ratio outputLength 0
                               (replicate outputLength 0))))))"


section \<open>Playback scheduler: the gapless web engine\<close>

definition SAMPLE_RATE :: nat where
  "SAMPLE_RATE = 24000"

definition CHUNKS_BEFORE_START :: nat where
  "CHUNKS_BEFORE_START = 3"

text \<open>
  An \<open>AudioBuffer\<close> of one channel at \<open>SAMPLE_RATE\<close>: its samples. Its \<open>duration\<close> is
  its length in frames over the sample rate, a double.
\<close>

type_synonym AudioBuffer = "real list"

definition duration :: "AudioBuffer \<Rightarrow> double" where
  "duration b = dbl (of_nat (length b) / of_nat SAMPLE_RATE)"

text \<open>
  What \<open>source.start(when)\<close> leaves in the audio context: the buffer, the requested start
  time, and the context's \<open>currentTime\<close> at the moment of the call.
\<close>

record ScheduledSource =
  src_buffer :: AudioBuffer
  startWhen :: double
  startCalledAt :: double

datatype AudioContextState = Suspended | Running | Closed

record AudioContext =
  ctx_state :: AudioContextState
  sources :: "ScheduledSource list"

text \<open>A context is created suspended and holds no source.\<close>

definition AudioContext_new :: AudioContext where
  "AudioContext_new = \<lparr>ctx_state = Suspended, sources = []\<rparr>"

record WebAudioPlaybackEngine =
  ctx :: "AudioContext option"
  nextStartTime :: double
  started :: bool
  bufferedChunks :: "AudioBuffer list"
  drainedCallback :: bool
  pendingSources :: int
  destroyed :: bool

text \<open>The field initialisers of the class; \<open>drainedCallback\<close> records whether one is set.\<close>

definition WebAudioPlaybackEngine_new :: WebAudioPlaybackEngine where
  "WebAudioPlaybackEngine_new =
     \<lparr>ctx = None, nextStartTime = dbl 0, started = False, bufferedChunks = [],
      drainedCallback = False, pendingSources = 0, destroyed = False\<rparr>"

definition init :: "WebAudioPlaybackEngine \<Rightarrow> WebAudioPlaybackEngine" where
  "init e = e\<lparr>ctx := Some AudioContext_new\<rparr>"

text \<open>
  \<open>new Int16Array(pcmData)\<close> views the bytes as 16-bit samples in platform byte order
  (little-endian), and raises on an odd byte length.
\<close>

fun int16_of_bytes :: "ArrayBuffer \<Rightarrow> int16 list" where
  "int16_of_bytes (lo # hi # rest) = word_cat hi lo # int16_of_bytes rest"
| "int16_of_bytes _ = []"

text \<open>
  \<open>pcmToAudioBuffer\<close>: each sample divided by 32768; \<open>createBuffer\<close> raises on a length
  of zero frames.
\<close>

definition pcmToAudioBuffer :: "ArrayBuffer \<Rightarrow> js_error + AudioBuffer" where
  "pcmToAudioBuffer pcmData =
     (if odd (length pcmData) then Inl RangeError
      else
        (let int16 = int16_of_bytes pcmData;
             float32 = map (\<lambda>w. of_int (sint w) / 32768) int16
         in if length float32 = 0 then Inl NotSupportedError else Inr float32))"

text \<open>
  \<open>scheduleBuffer\<close>, with \<open>now\<close> the value of \<open>ctx.currentTime\<close>: every read of the
  clock within one call of \<open>enqueue\<close> is taken to give the same value. The clock is never
  negative, so \<open>source.start\<close> is never given a negative time and does not raise. The
  literal \<open>0.05\<close> is the double nearest to 5/100.
\<close>

definition scheduleBuffer :: "double \<Rightarrow> AudioBuffer \<Rightarrow> WebAudioPlaybackEngine \<Rightarrow> WebAudioPlaybackEngine" where
  "scheduleBuffer now audioBuffer e =
     (case ctx e of
        None \<Rightarrow> e
      | Some c \<Rightarrow>
          (let e1 = (if val (nextStartTime e) < val now
                     then e\<lparr>nextStartTime := dadd now (dbl (5 / 100))\<rparr> else e);
               source = \<lparr>src_buffer = audioBuffer, startWhen = nextStartTime e1, startCalledAt = now\<rparr>
           in e1\<lparr>ctx := Some (c\<lparr>sources := sources c @ [source]\<rparr>),
                 nextStartTime := dadd (nextStartTime e1) (duration audioBuffer),
                 pendingSources := pendingSources e1 + 1\<rparr>))"

definition startPlayback :: "double \<Rightarrow> WebAudioPlaybackEngine \<Rightarrow> WebAudioPlaybackEngine" where
  "startPlayback now e =
     (case ctx e of
        None \<Rightarrow> e
      | Some c \<Rightarrow>
          (let e1 = e\<lparr>started := True, nextStartTime := dadd now (dbl (5 / 100))\<rparr>;
               e2 = fold (scheduleBuffer now) (bufferedChunks e1) e1
           in e2\<lparr>bufferedChunks := []\<rparr>))"

text \<open>
  \<open>enqueue\<close> returns the engine and the exception that escapes, if any. The context is
  resumed before the conversion that can raise.
\<close>

definition enqueue :: "double \<Rightarrow> ArrayBuffer \<Rightarrow> WebAudioPlaybackEngine \<Rightarrow> WebAudioPlaybackEngine \<times> js_error option" where
  "enqueue now pcmData e =
     (case ctx e of
        None \<Rightarrow> (e, None)
      | Some c \<Rightarrow>
          if destroyed e then (e, None)
          else
            (let e1 = (if ctx_state c = Suspended then e\<lparr>ctx := Some (c\<lparr>ctx_state := Running\<rparr>)\<rparr> else e)
             in case pcmToAudioBuffer pcmData of
                  Inl err \<Rightarrow> (e1, Some err)
                | Inr audioBuffer \<Rightarrow>
                    if started e1 then (scheduleBuffer now audioBuffer e1, None)
                    else
                      (let e2 = e1\<lparr>bufferedChunks := bufferedChunks e1 @ [audioBuffer]\<rparr>
                       in if length (bufferedChunks e2) \<ge> CHUNKS_BEFORE_START
                          then (startPlayback now e2, None)
                          else (e2, None))))"

text \<open>
  Closing a context cancels every source scheduled on it. \<open>clear\<close> closes the context
  and, unless the engine is destroyed, opens a new one.
\<close>

definition AudioContext_close :: "AudioContext \<Rightarrow> AudioContext" where
  "AudioContext_close c = c\<lparr>ctx_state := Closed, sources := []\<rparr>"

definition clear :: "WebAudioPlaybackEngine \<Rightarrow> WebAudioPlaybackEngine" where
  "clear e =
     (let e0 = (case ctx e of None \<Rightarrow> e | Some c \<Rightarrow> e\<lparr>ctx := Some (AudioContext_close c)\<rparr>);
          e1 = e0\<lparr>started := False, bufferedChunks := [], pendingSources := 0, nextStartTime := dbl 0\<rparr>
      in if destroyed e1 then e1 else e1\<lparr>ctx := Some AudioContext_new\<rparr>)"

definition isActive :: "WebAudioPlaybackEngine \<Rightarrow> bool" where
  "isActive e = (started e \<and> pendingSources e > 0)"

definition destroy :: "WebAudioPlaybackEngine \<Rightarrow> WebAudioPlaybackEngine" where
  "destroy e = e\<lparr>destroyed := True, ctx := None, bufferedChunks := [], pendingSources := 0\<rparr>"

definition onDrained :: "WebAudioPlaybackEngine \<Rightarrow> WebAudioPlaybackEngine" where
  "onDrained e = e\<lparr>drainedCallback := True\<rparr>"

text \<open>
  The \<open>onended\<close> handler of a scheduled source; the flag tells whether the drained
  callback is invoked.
\<close>

definition source_onended :: "WebAudioPlaybackEngine \<Rightarrow> WebAudioPlaybackEngine \<times> bool" where
  "source_onended e =
     (let e1 = e\<lparr>pendingSources := pendingSources e - 1\<rparr>
      in (e1, pendingSources e1 = 0 \<and> drainedCallback e1))"

text \<open>The sources scheduled on the engine's current context.\<close>

definition scheduled :: "WebAudioPlaybackEngine \<Rightarrow> ScheduledSource list" where
  "scheduled e = (case ctx e of None \<Rightarrow> [] | Some c \<Rightarrow> sources c)"

text \<open>A sequence of \<open>enqueue\<close> calls, each with the clock value it sees.\<close>

fun enqueue_all :: "(double \<times> ArrayBuffer) list \<Rightarrow> WebAudioPlaybackEngine \<Rightarrow> WebAudioPlaybackEngine" where
  "enqueue_all [] e = e"
| "enqueue_all ((now, pcmData) # rest) e = enqueue_all rest (fst (enqueue now pcmData e))"

subsection \<open>The scheduling invariant\<close>

text \<open>
  Two sources scheduled one after the other: the second does not start before the first;
  and either it starts where the first ends (the sum that the program computes), which is
  then not before the clock value of its own scheduling, or that end is before this clock
  value (underflow) and it starts at the clock value plus 50 ms.
\<close>

definition contiguous_step :: "ScheduledSource \<Rightarrow> ScheduledSource \<Rightarrow> bool" where
  "contiguous_step a b =
     (val (startWhen a) \<le> val (startWhen b) \<and>
      (startWhen b = dadd (startWhen a) (duration (src_buffer a)) \<and>
       val (startCalledAt b) \<le> val (startWhen b) \<or>
       startWhen b = dadd (startCalledAt b) (dbl (5 / 100)) \<and>
       val (dadd (startWhen a) (duration (src_buffer a))) < val (startCalledAt b)))"

text \<open>Every two neighbours of a schedule are such a pair.\<close>

fun contiguous :: "ScheduledSource list \<Rightarrow> bool" where
  "contiguous (a # b # rest) = (contiguous_step a b \<and> contiguous (b # rest))"
| "contiguous _ = True"

text \<open>
  What every engine reached by \<open>enqueue\<close> calls satisfies: its schedule is contiguous;
  nothing is scheduled before playback has started; once it has, the next start time is the
  end of the last scheduled source and the first source is anchored at its clock value plus
  50 ms.
\<close>

definition schedule_inv :: "WebAudioPlaybackEngine \<Rightarrow> bool" where
  "schedule_inv e =
     (case ctx e of
        None \<Rightarrow> True
      | Some c \<Rightarrow>
          contiguous (sources c) \<and>
          (if sources c = [] then \<not> started e
           else started e \<and>
                nextStartTime e = dadd (startWhen (last (sources c))) (duration (src_buffer (last (sources c)))) \<and>
                startWhen (hd (sources c)) = dadd (startCalledAt (hd (sources c))) (dbl (5 / 100))))"

text \<open>The part of the invariant that \<open>scheduleBuffer\<close> keeps by itself.\<close>

definition tail_inv :: "WebAudioPlaybackEngine \<Rightarrow> bool" where
  "tail_inv e =
     (contiguous (scheduled e) \<and>
      (scheduled e = [] \<or>
       nextStartTime e = dadd (startWhen (last (scheduled e))) (duration (src_buffer (last (scheduled e))))))"

text \<open>An engine used as concrete input: three one-sample chunks at clock value 0, so playing.\<close>

definition playing_engine :: WebAudioPlaybackEngine where
  "playing_engine =
     enqueue_all [(dbl 0, [1, 0]), (dbl 0, [2, 0]), (dbl 0, [3, 0])] (init WebAudioPlaybackEngine_new)"



section \<open>Session state machine: the \<open>useVoiceSession\<close> hook\<close>

datatype VoiceSessionState =
  Disconnected | Connecting | Connected | Listening | Processing | Speaking | Error

record PhotoTag =
  tag_type :: string
  tag_value :: string

record PhotoContext =
  photo_id :: string
  caption :: "string option"
  tags :: "PhotoTag list option"
  date_taken :: "string option"

text \<open>
  A transcript entry. The role and text of an entry made from a server message are whatever
  the message carries, so they may be absent.
\<close>

record VoiceTranscriptEntry =
  entry_role :: "string option"
  entry_text :: "string option"
  entry_timestamp :: string
  entry_photo_id :: "string option"

text \<open>
  The fields the hook reads from a parsed server message (\<open>VoiceSessionMessage\<close>); a
  field the message lacks is \<open>None\<close>.
\<close>

record VoiceSessionMessage =
  msg_type :: "string option"
  msg_role :: "string option"
  msg_text :: "string option"
  msg_photo_id :: "string option"
  msg_message :: "string option"

text \<open>
  A string frame is represented by what \<open>JSON.parse\<close> makes of it: a syntax error, the
  value \<open>null\<close> (reading a field of it raises), or a value whose fields are read as above.
  The socket's \<open>binaryType\<close> is \<open>arraybuffer\<close>, so every other frame is an \<open>ArrayBuffer\<close>.
\<close>

datatype JsonParse = Unparseable | ParsedNull | ParsedMessage VoiceSessionMessage

datatype MessageData = ArrayBufferData ArrayBuffer | StringData JsonParse

text \<open>
  What the hook sends: \<open>{type: 'text', text}\<close>,
  \<open>{type: 'photo_change', photo_id, caption, tags, date_taken}\<close> (an absent field is left out
  by \<open>JSON.stringify\<close>), or a binary frame.
\<close>

datatype OutboundFrame =
  TextMessage string
| PhotoChangeMessage string "string option" "string list option" "string option"
| BinaryFrame ArrayBuffer

datatype ReadyState = CONNECTING | OPEN | CLOSING | CLOSED

record WebSocket =
  ws_url :: string
  readyState :: ReadyState
  sent :: "OutboundFrame list"

definition ws_send :: "OutboundFrame \<Rightarrow> WebSocket \<Rightarrow> WebSocket" where
  "ws_send frame ws = ws\<lparr>sent := sent ws @ [frame]\<rparr>"

text \<open>The interface \<open>AudioPlaybackEngine\<close>, and the factory's result before \<open>init\<close>.\<close>

record 'e AudioPlaybackEngineOps =
  createPlaybackEngine :: 'e
  engine_init :: "'e \<Rightarrow> 'e"
  engine_enqueue :: "double \<Rightarrow> ArrayBuffer \<Rightarrow> 'e \<Rightarrow> 'e \<times> js_error option"
  engine_clear :: "'e \<Rightarrow> 'e"
  engine_destroy :: "'e \<Rightarrow> 'e"
  engine_onDrained :: "'e \<Rightarrow> 'e"

text \<open>The implementation the factory returns on the web platform.\<close>

definition web_engine_ops :: "WebAudioPlaybackEngine AudioPlaybackEngineOps" where
  "web_engine_ops =
     \<lparr>createPlaybackEngine = WebAudioPlaybackEngine_new, engine_init = init,
      engine_enqueue = enqueue, engine_clear = clear, engine_destroy = destroy,
      engine_onDrained = onDrained\<rparr>"

text \<open>The input and output the hook performs besides the socket traffic; logging is left out.\<close>

datatype IOEffect = SetAudioMode | RequestPermissions | CreatePlaybackEngine | OpenWebSocket string

text \<open>
  The hook's state: the \<open>state\<close> and \<open>error\<close> values, its refs, the transcript of the
  therapy store, and the log of input and output performed so far.
\<close>

record 'e Session =
  state :: VoiceSessionState
  error :: "string option"
  wsRef :: "WebSocket option"
  playbackEngineRef :: "'e option"
  initialPhotoRef :: "PhotoContext option"
  audioModeSetRef :: bool
  currentTranscript :: "VoiceTranscriptEntry list"
  io_log :: "IOEffect list"

definition setState :: "VoiceSessionState \<Rightarrow> 'e Session \<Rightarrow> 'e Session" where
  "setState newState s = s\<lparr>state := newState\<rparr>"

definition setError :: "string option \<Rightarrow> 'e Session \<Rightarrow> 'e Session" where
  "setError e s = s\<lparr>error := e\<rparr>"

definition addTranscriptEntry :: "VoiceTranscriptEntry \<Rightarrow> 'e Session \<Rightarrow> 'e Session" where
  "addTranscriptEntry entry s = s\<lparr>currentTranscript := currentTranscript s @ [entry]\<rparr>"

definition clearTranscript :: "'e Session \<Rightarrow> 'e Session" where
  "clearTranscript s = s\<lparr>currentTranscript := []\<rparr>"

text \<open>\<open>wsRef.current?.readyState === WebSocket.OPEN\<close>\<close>

definition ws_is_open :: "'e Session \<Rightarrow> bool" where
  "ws_is_open s = (case wsRef s of None \<Rightarrow> False | Some ws \<Rightarrow> readyState ws = OPEN)"

text \<open>\<open>Array.prototype.join\<close>\<close>

fun js_join :: "string \<Rightarrow> string list \<Rightarrow> string" where
  "js_join sep [] = []"
| "js_join sep [x] = x"
| "js_join sep (x # y # ys) = x @ sep @ js_join sep (y # ys)"

definition tag_values :: "string \<Rightarrow> PhotoTag list \<Rightarrow> string list" where
  "tag_values ty ts = map tag_value (filter (\<lambda>t. tag_type t = ty) ts)"

definition no_context_placeholder :: string where
  "no_context_placeholder = ''No additional context available for this photo.''"

text \<open>\<open>buildPhotoDescription\<close>; an empty string is falsy, as an absent field is.\<close>

definition buildPhotoDescription :: "PhotoContext \<Rightarrow> string" where
  "buildPhotoDescription photo =
     (let parts0 = [];
          parts1 =
            (case caption photo of
               None \<Rightarrow> parts0
             | Some c \<Rightarrow>
                 if c = [] then parts0
                 else parts0 @ [''Caption: '' @ [CHR 0x22] @ c @ [CHR 0x22]]);
          parts2 =
            (case tags photo of
               None \<Rightarrow> parts1
             | Some ts \<Rightarrow>
                 if length ts > 0 then
                   (let people = tag_values ''person'' ts;
                        places = tag_values ''place'' ts;
                        events = tag_values ''event'' ts;
                        pa = (if length people > 0
                              then parts1 @ [''People in photo: '' @ js_join '', '' people] else parts1);
                        pb = (if length places > 0
                              then pa @ [''Location: '' @ js_join '', '' places] else pa);
                        pc = (if length events > 0
                              then pb @ [''Event: '' @ js_join '', '' events] else pb)
                    in pc)
                 else parts1);
          parts3 =
            (case date_taken photo of
               None \<Rightarrow> parts2
             | Some d \<Rightarrow> if d = [] then parts2 else parts2 @ [''Date taken: '' @ d])
      in if length parts3 > 0 then js_join ''. '' parts3 else no_context_placeholder)"

text \<open>The text of the greeting sent once the backend confirms the connection.\<close>

definition greeting_text :: "PhotoContext \<Rightarrow> string" where
  "greeting_text photo =
     ''Hello! I'' @ [CHR 0x27] @
     ''m looking at some photos and would love to share memories with you. '' @
     buildPhotoDescription photo @ [CHR 0x0A, CHR 0x0A] @
     ''Please greet me warmly and gently ask if I recognize anything in this photo.''"

text \<open>
  What a message handler reads from its surroundings: the audio clock and the wall-clock
  time as an ISO string.
\<close>

record HostEnv =
  audioClock :: double
  isoNow :: string

text \<open>
  \<open>handleMessage\<close>: the session after the handler, and the exception that escapes it, if
  any (the handler is asynchronous, so the exception rejects its promise).
\<close>

definition handleMessage ::
    "'e AudioPlaybackEngineOps \<Rightarrow> HostEnv \<Rightarrow> MessageData \<Rightarrow> 'e Session \<Rightarrow> 'e Session \<times> js_error option" where
  "handleMessage ops env data s =
     (case data of
        ArrayBufferData buf \<Rightarrow>
          (case buf of
             [] \<Rightarrow> (s, Some RangeError)
           | messageType # _ \<Rightarrow>
               if messageType = 1 then
                 (let pcmData = drop 13 buf
                  in case playbackEngineRef s of
                       None \<Rightarrow> (s, None)
                     | Some engine \<Rightarrow>
                         (let s1 = (if state s = Speaking then s else setState Speaking s);
                              r = engine_enqueue ops (audioClock env) pcmData engine
                          in (s1\<lparr>playbackEngineRef := Some (fst r)\<rparr>, snd r)))
               else (s, None))
      | StringData parsed \<Rightarrow>
          (case parsed of
             Unparseable \<Rightarrow> (s, None)
           | ParsedNull \<Rightarrow> (s, Some TypeError)
           | ParsedMessage messageData \<Rightarrow>
               if msg_type messageData = Some ''connected'' then
                 (let s1 = setState Connected s
                  in case (wsRef s1, initialPhotoRef s1) of
                       (Some ws, Some photo) \<Rightarrow>
                         if readyState ws = OPEN
                         then (s1\<lparr>wsRef := Some (ws_send (TextMessage (greeting_text photo)) ws)\<rparr>, None)
                         else (s1, None)
                     | _ \<Rightarrow> (s1, None))
               else if msg_type messageData = Some ''transcript'' then
                 (addTranscriptEntry
                    \<lparr>entry_role = msg_role messageData, entry_text = msg_text messageData,
                     entry_timestamp = isoNow env, entry_photo_id = None\<rparr> s, None)
               else if msg_type messageData = Some ''interrupted'' then
                 (let s1 = (case playbackEngineRef s of
                              None \<Rightarrow> s
                            | Some engine \<Rightarrow> s\<lparr>playbackEngineRef := Some (engine_clear ops engine)\<rparr>)
                  in (setState Connected s1, None))
               else if msg_type messageData = Some ''photo_context_updated'' then (s, None)
               else if msg_type messageData = Some ''error'' then
                 (setError (msg_message messageData) s, None)
               else (s, None)))"

text \<open>The props and configuration \<open>connect\<close> reads.\<close>

record SessionProps =
  sessionId :: "string option"
  patientId :: "string option"
  GEMINI_API_KEY :: "string option"
  token :: "string option"
  API_BASE_URL :: string

text \<open>A value is falsy when it is missing or the empty string.\<close>

definition js_falsy :: "string option \<Rightarrow> bool" where
  "js_falsy v = (case v of None \<Rightarrow> True | Some x \<Rightarrow> x = [])"

text \<open>\<open>String.prototype.replace\<close> with a string pattern: the first occurrence only.\<close>

fun replace_first :: "string \<Rightarrow> string \<Rightarrow> string \<Rightarrow> string" where
  "replace_first pat rep [] = (if pat = [] then rep else [])"
| "replace_first pat rep (c # cs) =
     (if take (length pat) (c # cs) = pat then rep @ drop (length pat) (c # cs)
      else c # replace_first pat rep cs)"

text \<open>A value inside a template literal; the first argument is what an absent value prints as.\<close>

definition template_value :: "string \<Rightarrow> string option \<Rightarrow> string" where
  "template_value absent v = (case v of None \<Rightarrow> absent | Some x \<Rightarrow> x)"

definition wsUrl :: "SessionProps \<Rightarrow> string" where
  "wsUrl props =
     replace_first ''http'' ''ws'' (API_BASE_URL props) @ ''/api/voice/ws/voice/'' @
     template_value ''undefined'' (sessionId props) @ ''?patient_id='' @
     template_value ''undefined'' (patientId props) @ ''&token='' @
     template_value ''null'' (token props)"

text \<open>
  What the awaited calls of \<open>connect\<close> answer: whether setting the audio mode fails, the
  permission status (\<open>None\<close>: the request fails), and whether creating the engine or the
  socket raises.
\<close>

record ConnectEnv =
  setAudioModeFails :: bool
  permissionStatus :: "string option"
  createEngineThrows :: bool
  newWebSocketThrows :: bool

definition setupAudioMode :: "ConnectEnv \<Rightarrow> 'e Session \<Rightarrow> 'e Session" where
  "setupAudioMode env s =
     (if audioModeSetRef s then s
      else
        (let s1 = s\<lparr>io_log := io_log s @ [SetAudioMode]\<rparr>
         in if setAudioModeFails env then s1 else s1\<lparr>audioModeSetRef := True\<rparr>))"

definition connect_failed :: "'e Session \<Rightarrow> 'e Session" where
  "connect_failed s = setState Error (setError (Some ''Failed to connect'') s)"

text \<open>
  \<open>connect\<close>, run to completion without another handler in between. The first test and
  its two effects come before the first \<open>await\<close>.
\<close>

definition connect ::
    "'e AudioPlaybackEngineOps \<Rightarrow> SessionProps \<Rightarrow> ConnectEnv \<Rightarrow> 'e Session \<Rightarrow> 'e Session" where
  "connect ops props env s =
     (if js_falsy (sessionId props) \<or> js_falsy (patientId props) \<or> js_falsy (GEMINI_API_KEY props)
      then setState Error (setError (Some ''Missing session ID, patient ID, or Gemini API Key'') s)
      else if ws_is_open s then s
      else
        (let s1 = clearTranscript (setError None (setState Connecting s));
             s2 = setupAudioMode env s1;
             s3 = s2\<lparr>io_log := io_log s2 @ [RequestPermissions]\<rparr>
         in case permissionStatus env of
              None \<Rightarrow> connect_failed s3
            | Some status \<Rightarrow>
                if status = ''granted'' then
                  (let s4 = s3\<lparr>io_log := io_log s3 @ [CreatePlaybackEngine]\<rparr>
                   in if createEngineThrows env then connect_failed s4
                      else
                        (let engine = engine_onDrained ops (engine_init ops (createPlaybackEngine ops));
                             s5 = s4\<lparr>playbackEngineRef := Some engine\<rparr>;
                             s6 = s5\<lparr>io_log := io_log s5 @ [OpenWebSocket (wsUrl props)]\<rparr>
                         in if newWebSocketThrows env then connect_failed s6
                            else s6\<lparr>wsRef := Some \<lparr>ws_url = wsUrl props, readyState = CONNECTING,
                                                    sent = []\<rparr>\<rparr>))
                else setState Error (setError (Some ''Microphone permission denied'') s3)))"

text \<open>The socket's \<open>onerror\<close> and \<open>onclose\<close> handlers and the engine's drained callback.\<close>

definition ws_onerror :: "'e Session \<Rightarrow> 'e Session" where
  "ws_onerror s = setState Error (setError (Some ''Connection error'') s)"

definition ws_onclose :: "'e Session \<Rightarrow> 'e Session" where
  "ws_onclose s =
     (let s1 = s\<lparr>wsRef := None\<rparr>
      in if state s1 = Error then s1 else setState Disconnected s1)"

definition playback_drained :: "'e Session \<Rightarrow> 'e Session" where
  "playback_drained s = (if state s = Speaking then setState Connected s else s)"

definition sendPhotoChange :: "HostEnv \<Rightarrow> PhotoContext \<Rightarrow> 'e Session \<Rightarrow> 'e Session" where
  "sendPhotoChange env photo s =
     (case wsRef s of
        None \<Rightarrow> s
      | Some ws \<Rightarrow>
          if readyState ws = OPEN then
            (let message = PhotoChangeMessage (photo_id photo) (caption photo)
                             (map_option (map tag_value) (tags photo)) (date_taken photo);
                 s1 = s\<lparr>wsRef := Some (ws_send message ws)\<rparr>
             in addTranscriptEntry
                  \<lparr>entry_role = Some ''system'', entry_text = Some (''Viewed photo '' @ photo_id photo),
                   entry_timestamp = isoNow env, entry_photo_id = Some (photo_id photo)\<rparr> s1)
          else s)"

text \<open>The hook's initial state, given the initial photo it was called with.\<close>

definition Session_initial :: "PhotoContext option \<Rightarrow> 'e Session" where
  "Session_initial initialPhoto =
     \<lparr>state = Disconnected, error = None, wsRef = None, playbackEngineRef = None,
      initialPhotoRef = initialPhoto, audioModeSetRef = False, currentTranscript = [],
      io_log = []\<rparr>"

text \<open>The platform opens the socket: its ready state becomes \<open>OPEN\<close> (\<open>onopen\<close> only logs).\<close>

definition ws_opened :: "'e Session \<Rightarrow> 'e Session" where
  "ws_opened s =
     (case wsRef s of None \<Rightarrow> s | Some ws \<Rightarrow> s\<lparr>wsRef := Some (ws\<lparr>readyState := OPEN\<rparr>)\<rparr>)"

text \<open>
  The cleanup the hook registers for its unmount: the playback engine is destroyed and its
  ref cleared; the socket is closed, its ref kept. Closing a socket that is not closed yet
  leaves it \<open>CLOSING\<close> until the closing handshake completes, and frames that arrive
  meanwhile are still delivered to \<open>handleMessage\<close>. The capture side is left out.
\<close>

definition ws_close :: "WebSocket \<Rightarrow> WebSocket" where
  "ws_close ws = (if readyState ws = CLOSED then ws else ws\<lparr>readyState := CLOSING\<rparr>)"

definition hook_cleanup :: "'e Session \<Rightarrow> 'e Session" where
  "hook_cleanup s =
     (let s1 = (case playbackEngineRef s of None \<Rightarrow> s | Some engine \<Rightarrow> s\<lparr>playbackEngineRef := None\<rparr>)
      in case wsRef s1 of None \<Rightarrow> s1 | Some ws \<Rightarrow> s1\<lparr>wsRef := Some (ws_close ws)\<rparr>)"

text \<open>
  The parts of a photo's description in the order caption, people, location, event, date,
  each present only when its field is: the description joins them, or is the placeholder
  sentence when there is none.
\<close>

definition description_parts :: "PhotoContext \<Rightarrow> string list" where
  "description_parts photo =
     (case caption photo of
        None \<Rightarrow> []
      | Some c \<Rightarrow> if c = [] then [] else [''Caption: '' @ [CHR 0x22] @ c @ [CHR 0x22]]) @
     (case tags photo of
        None \<Rightarrow> []
      | Some ts \<Rightarrow>
          (if tag_values ''person'' ts = [] then []
           else [''People in photo: '' @ js_join '', '' (tag_values ''person'' ts)]) @
          (if tag_values ''place'' ts = [] then []
           else [''Location: '' @ js_join '', '' (tag_values ''place'' ts)]) @
          (if tag_values ''event'' ts = [] then []
           else [''Event: '' @ js_join '', '' (tag_values ''event'' ts)])) @
     (case date_taken photo of
        None \<Rightarrow> []
      | Some d \<Rightarrow> if d = [] then [] else [''Date taken: '' @ d])"

text \<open>A session used as concrete input: connected through \<open>connect\<close>, the socket open.\<close>

definition example_photo :: PhotoContext where
  "example_photo =
     \<lparr>photo_id = ''p1'', caption = Some ''Beach day'',
      tags = Some [\<lparr>tag_type = ''person'', tag_value = ''Anna''\<rparr>,
                   \<lparr>tag_type = ''place'', tag_value = ''Brighton''\<rparr>,
                   \<lparr>tag_type = ''person'', tag_value = ''Ben''\<rparr>],
      date_taken = None\<rparr>"

definition example_props :: SessionProps where
  "example_props =
     \<lparr>sessionId = Some ''s1'', patientId = Some ''pt1'', GEMINI_API_KEY = Some ''key'',
      token = Some ''tok'', API_BASE_URL = ''http://localhost:8000''\<rparr>"

definition granted_env :: ConnectEnv where
  "granted_env =
     \<lparr>setAudioModeFails = False, permissionStatus = Some ''granted'',
      createEngineThrows = False, newWebSocketThrows = False\<rparr>"

definition example_session :: "WebAudioPlaybackEngine Session" where
  "example_session =
     ws_opened (connect web_engine_ops example_props granted_env (Session_initial (Some example_photo)))"

definition example_env :: HostEnv where
  "example_env = \<lparr>audioClock = dbl 0, isoNow = ''2025-01-01T00:00:00.000Z''\<rparr>"

definition connected_message :: VoiceSessionMessage where
  "connected_message =
     \<lparr>msg_type = Some ''connected'', msg_role = None, msg_text = None, msg_photo_id = None,
      msg_message = None\<rparr>"

definition error_message :: VoiceSessionMessage where
  "error_message =
     \<lparr>msg_type = Some ''error'', msg_role = None, msg_text = None, msg_photo_id = None,
      msg_message = Some ''Gemini session failed''\<rparr>"

section \<open>Properties of the frame encoder\<close>

lemma sint_int16: "- 32768 \<le> k \<Longrightarrow> k \<le> 32767 \<Longrightarrow> sint (word_of_int k :: int16) = k"
  by (simp add: int_word_sint)

lemma floatTo16BitPCM_range: "- 32768 \<le> floatTo16BitPCM x \<and> floatTo16BitPCM x \<le> 32767"
  by (auto simp: floatTo16BitPCM_def Let_def max_def min_def)

lemma js_trunc_range:
  assumes "- 32768 \<le> x" "x \<le> 32767"
  shows "- 32768 \<le> js_trunc x \<and> js_trunc x \<le> 32767"
  using assms unfolding js_trunc_def by (auto simp: le_floor_iff floor_le_iff ceiling_le_iff le_ceiling_iff) 

text \<open>
  Claim C9. \<open>floatTo16BitPCM\<close> clamps its argument to \<open>[-1, 1]\<close> and scales the clamped
  value \<open>s\<close> by 32768 when \<open>s < 0\<close> and by 32767 otherwise; 2.0 gives 32767 and -2.0 gives
  -32768; for every finite input the result lies in the signed 16-bit range, so storing it
  into the \<open>Int16Array\<close> truncates without wrapping around.
\<close>

theorem floatTo16BitPCM_clamps_and_scales:
  "floatTo16BitPCM x =
     (if max (- 1) (min 1 x) < 0 then max (- 1) (min 1 x) * 32768 else max (- 1) (min 1 x) * 32767) \<and>
   floatTo16BitPCM 2 = 32767 \<and> floatTo16BitPCM (- 2) = - 32768 \<and>
   - 32768 \<le> floatTo16BitPCM x \<and> floatTo16BitPCM x \<le> 32767 \<and>
   sint (ToInt16 (floatTo16BitPCM x)) = js_trunc (floatTo16BitPCM x) \<and>
   snd (sendBuffer \<lparr>pcm_buffer = [2, - 2], bufferSize = 4800\<rparr>) = Some [32767, - 32768]"
proof (intro conjI)
  show "floatTo16BitPCM x =
     (if max (- 1) (min 1 x) < 0 then max (- 1) (min 1 x) * 32768 else max (- 1) (min 1 x) * 32767)"
    by (simp add: floatTo16BitPCM_def Let_def)
  show "floatTo16BitPCM 2 = 32767" "floatTo16BitPCM (- 2) = - 32768"
    by (simp_all add: floatTo16BitPCM_def)
  show r1: "- 32768 \<le> floatTo16BitPCM x" and r2: "floatTo16BitPCM x \<le> 32767"
    using floatTo16BitPCM_range [of x] by blast+
  show "sint (ToInt16 (floatTo16BitPCM x)) = js_trunc (floatTo16BitPCM x)"
    unfolding ToInt16_def using js_trunc_range [OF r1 r2]
    by (intro sint_int16) blast+
  show "snd (sendBuffer \<lparr>pcm_buffer = [2, - 2], bufferSize = 4800\<rparr>) = Some [32767, - 32768]"
    by (simp add: sendBuffer_def floatTo16BitPCM_def ToInt16_def js_trunc_def)
qed

theorem floatTo16BitPCM_clamps_and_scales_witness:
  "floatTo16BitPCM (5 / 2) = 32767 \<and> floatTo16BitPCM (- 1 / 2) = - 16384 \<and>
   floatTo16BitPCM (- 7) = - 32768"
  using floatTo16BitPCM_clamps_and_scales [of "5 / 2"] floatTo16BitPCM_clamps_and_scales [of "- 1 / 2"]
    floatTo16BitPCM_clamps_and_scales [of "- 7"]
  by simp

section \<open>Properties of double-precision rounding\<close>

lemma round_half_even_err: "\<bar>of_int (round_half_even x) - x\<bar> \<le> 1 / 2"
  unfolding round_half_even_def Let_def by (auto; linarith)

lemma round_half_even_nonneg: "0 \<le> x \<Longrightarrow> 0 \<le> round_half_even x"
  unfolding round_half_even_def Let_def by (auto; linarith)

lemma subnormal_scale_pos: "0 < subnormal_scale"
  by (simp add: subnormal_scale_def)

lemma subnormal_scale_large: "2 ^ 60 \<le> subnormal_scale"
  unfolding subnormal_scale_def by (rule power_increasing) simp_all

lemma fl64_nonneg_nonneg: "0 \<le> x \<Longrightarrow> 0 \<le> fl64_nonneg x"
proof -
  assume x: "0 \<le> x"
  have s: "0 \<le> x * subnormal_scale" using x subnormal_scale_pos by simp
  have 1: "0 \<le> round_half_even (x * subnormal_scale)" by (rule round_half_even_nonneg [OF s])
  have 2: "0 \<le> round_half_even (x * subnormal_scale / q)" if "0 < q" for q :: real
    by (rule round_half_even_nonneg) (use s that in simp)
  show ?thesis
    unfolding fl64_nonneg_def Let_def using 1 2 subnormal_scale_pos
    by (auto intro!: divide_nonneg_pos mult_nonneg_nonneg)
qed

lemma fl64_nonneg_err:
  assumes "0 \<le> x"
  shows "\<bar>fl64_nonneg x - x\<bar> \<le> x / 2 ^ 53 + 1 / (2 * subnormal_scale)"
proof -
  define s where "s = x * subnormal_scale"
  define n where "n = \<lfloor>s\<rfloor>"
  have sp: "0 < subnormal_scale" by (rule subnormal_scale_pos)
  have s0: "0 \<le> s" using assms sp by (simp add: s_def)
  have xs: "x = s / subnormal_scale" using sp by (simp add: s_def)
  show ?thesis
  proof (cases "n < 2 ^ 53")
    case True
    then have f: "fl64_nonneg x = of_int (round_half_even s) / subnormal_scale"
      by (simp add: fl64_nonneg_def Let_def s_def n_def)
    have "fl64_nonneg x - x = (of_int (round_half_even s) - s) / subnormal_scale"
      by (simp add: f xs [symmetric] diff_divide_distrib)
    then have "\<bar>fl64_nonneg x - x\<bar> = \<bar>of_int (round_half_even s) - s\<bar> / subnormal_scale"
      using sp by (simp add: abs_divide)
    also have "\<dots> \<le> (1 / 2) / subnormal_scale"
      by (intro divide_right_mono round_half_even_err) (use sp in simp)
    also have "\<dots> = 1 / (2 * subnormal_scale)" by simp
    finally have "\<bar>fl64_nonneg x - x\<bar> \<le> 1 / (2 * subnormal_scale)" .
    moreover have "0 \<le> x / 2 ^ 53" using assms by simp
    ultimately show ?thesis by linarith
  next
    case False
    then have n53: "2 ^ 53 \<le> n" by simp
    then have npos: "0 < n" by (smt (verit) zero_less_power)
    define q :: real where "q = 2 ^ nat (bitlen n - 53)"
    have qpos: "0 < q" by (simp add: q_def)
    have f: "fl64_nonneg x = of_int (round_half_even (s / q)) * q / subnormal_scale"
      using False by (simp add: fl64_nonneg_def Let_def s_def n_def q_def)
    from bitlen_bounds [OF npos] have lo: "2 ^ nat (bitlen n - 1) \<le> n" and hi: "n < 2 ^ nat (bitlen n)"
      by simp_all
    have "\<not> nat (bitlen n) \<le> 53"
    proof
      assume "nat (bitlen n) \<le> 53"
      then have "(2 :: int) ^ nat (bitlen n) \<le> 2 ^ 53" by (rule power_increasing) simp
      with n53 hi show False by linarith
    qed
    then have "53 < nat (bitlen n)" by simp
    then have e: "nat (bitlen n - 1) = nat (bitlen n - 53) + 52" by linarith
    have "real_of_int ((2 :: int) ^ nat (bitlen n - 1)) \<le> real_of_int n" using lo by (simp only: of_int_le_iff)
    then have "q * 2 ^ 52 \<le> real_of_int n" by (simp add: e q_def power_add)
    also have "real_of_int n \<le> s" by (simp add: n_def)
    finally have qs: "q * 2 ^ 52 \<le> s" .
    have "(of_int (round_half_even (s / q)) - s / q) * q = of_int (round_half_even (s / q)) * q - s"
      using qpos by (simp add: field_simps)
    then have "fl64_nonneg x - x = (of_int (round_half_even (s / q)) - s / q) * q / subnormal_scale"
      by (simp add: f xs [symmetric] diff_divide_distrib)
    then have "\<bar>fl64_nonneg x - x\<bar> = \<bar>of_int (round_half_even (s / q)) - s / q\<bar> * q / subnormal_scale"
      using sp qpos by (simp add: abs_divide abs_mult)
    also have "\<dots> \<le> (1 / 2) * q / subnormal_scale"
      by (intro divide_right_mono mult_right_mono round_half_even_err) (use sp qpos in simp_all)
    also have "\<dots> \<le> (1 / 2) * (s / 2 ^ 52) / subnormal_scale"
      using qs sp by (intro divide_right_mono mult_left_mono) (simp_all add: field_simps)
    also have "\<dots> = x / 2 ^ 53" by (simp add: xs [symmetric])
    finally have "\<bar>fl64_nonneg x - x\<bar> \<le> x / 2 ^ 53" .
    moreover have "0 \<le> 1 / (2 * subnormal_scale)" using sp by simp
    ultimately show ?thesis by linarith
  qed
qed

lemma fl64_err: "\<bar>fl64 x - x\<bar> \<le> \<bar>x\<bar> / 2 ^ 53 + 1 / (2 * subnormal_scale)"
proof (cases "x < 0")
  case True
  then have "\<bar>fl64 x - x\<bar> = \<bar>fl64_nonneg (- x) - (- x)\<bar>" by (simp add: fl64_def)
  also have "\<dots> \<le> (- x) / 2 ^ 53 + 1 / (2 * subnormal_scale)"
    by (rule fl64_nonneg_err) (use True in simp)
  finally show ?thesis using True by simp
next
  case False
  then have "\<bar>fl64 x - x\<bar> = \<bar>fl64_nonneg x - x\<bar>" by (simp add: fl64_def)
  also have "\<dots> \<le> x / 2 ^ 53 + 1 / (2 * subnormal_scale)"
    by (rule fl64_nonneg_err) (use False in simp)
  finally show ?thesis using False by simp
qed

lemma fl64_nonneg_iff: "0 \<le> x \<Longrightarrow> 0 \<le> fl64 x"
  by (simp add: fl64_def fl64_nonneg_nonneg)

lemma fl64_err_small:
  "\<bar>fl64 x - x\<bar> \<le> \<bar>x\<bar> / 2 ^ 53 + 1 / 2 ^ 61"
proof -
  have "1 / (2 * subnormal_scale) \<le> 1 / (2 * 2 ^ 60)"
    using subnormal_scale_large by (intro divide_left_mono mult_left_mono) simp_all
  also have "\<dots> = 1 / 2 ^ 61" by simp
  finally show ?thesis using fl64_err [of x] by linarith
qed

lemma fl64_err_bound:
  assumes "\<bar>x\<bar> \<le> B"
  shows "\<bar>fl64 x - x\<bar> \<le> B / 2 ^ 53 + 1 / 2 ^ 61"
proof -
  have "\<bar>x\<bar> / 2 ^ 53 \<le> B / 2 ^ 53" using assms by (intro divide_right_mono) simp_all
  then show ?thesis using fl64_err_small [of x] by linarith
qed

lemma abs_mult_bound:
  fixes a b :: real
  assumes "\<bar>a\<bar> \<le> A" "\<bar>b\<bar> \<le> B"
  shows "\<bar>a * b\<bar> \<le> A * B"
proof -
  have "\<bar>a * b\<bar> = \<bar>a\<bar> * \<bar>b\<bar>" by (rule abs_mult)
  also have "\<dots> \<le> A * B" using assms by (intro mult_mono) (auto intro: order_trans [of 0 "\<bar>a\<bar>"])
  finally show ?thesis .
qed

text \<open>The source index stays inside the input.\<close>

lemma src_index_in_range:
  fixes r :: real and len i N :: nat
  assumes r: "0 < r"
    and N: "N = nat \<lfloor>fdiv (of_nat len) r\<rfloor>" "N \<le> 2 ^ 32" and i: "i < N"
  shows "0 \<le> fmul (of_nat i) r" "fmul (of_nat i) r < of_nat len"
proof -
  define n :: real where "n = of_nat len"
  define Q where "Q = fl64 (n / r)"
  define d where "d = n / r"
  define p where "p = of_nat i * r"
  define s where "s = fl64 p"
  have n0: "0 \<le> n" by (simp add: n_def)
  have d0: "0 \<le> d" using r n0 by (simp add: d_def)
  have p0: "0 \<le> p" using r by (simp add: p_def)
  show "0 \<le> fmul (of_nat i) r"
    unfolding fmul_def using p0 by (simp add: fl64_nonneg_iff p_def)
  have NQ: "N = nat \<lfloor>Q\<rfloor>" using N(1) by (simp add: fdiv_def Q_def n_def)
  then have "0 < nat \<lfloor>Q\<rfloor>" using i by linarith
  then have "0 < \<lfloor>Q\<rfloor>" by (simp only: zero_less_nat_eq)
  then have fl: "int N = \<lfloor>Q\<rfloor>" using NQ by simp
  have a: "real i + 1 \<le> Q"
  proof -
    have "int i + 1 \<le> \<lfloor>Q\<rfloor>" using i fl by linarith
    then have "of_int (int i + 1) \<le> Q" by (simp only: le_floor_iff)
    then show ?thesis by simp
  qed
  have b: "Q < 2 ^ 32 + 1"
  proof -
    have "int N \<le> 2 ^ 32" using N(2) by (metis of_nat_le_iff of_nat_numeral of_nat_power)
    then have "\<lfloor>Q\<rfloor> \<le> 2 ^ 32" using fl by simp
    then have "Q < of_int (2 ^ 32) + 1" by (simp only: floor_le_iff)
    then show ?thesis by simp
  qed
  have c: "\<bar>Q - d\<bar> \<le> d / 2 ^ 53 + 1 / 2 ^ 61"
    using fl64_err_small [of d] d0 by (simp add: Q_def d_def)
  have c1: "Q \<le> d + d / 2 ^ 53 + 1 / 2 ^ 61" and c2: "d - d / 2 ^ 53 - 1 / 2 ^ 61 \<le> Q"
    using c by (simp_all add: abs_le_iff) 
  have dpos: "1 / 2 \<le> d" using a c1 by simp
  have dup: "d \<le> 2 ^ 33" using b c2 by simp
  have nd: "n = d * r" using r by (simp add: d_def)
  have rn: "n \<le> 2 ^ 33 * r" unfolding nd using dup r by (intro mult_right_mono) simp_all
  have npos: "0 < n" unfolding nd using dpos r by (intro mult_pos_pos) simp_all
  then have "0 < len" by (simp add: n_def)
  then have n1: "1 \<le> n" by (simp add: n_def)
  have "(real i + 1) * r \<le> (d + d / 2 ^ 53 + 1 / 2 ^ 61) * r"
    using a c1 r by (intro mult_right_mono) simp_all
  then have pr: "p + r \<le> n + n / 2 ^ 53 + r / 2 ^ 61"
    by (simp add: p_def nd algebra_simps)
  have e: "\<bar>s - p\<bar> \<le> p / 2 ^ 53 + 1 / 2 ^ 61"
    using fl64_err_small [of p] p0 by (simp add: s_def)
  then have e1: "s \<le> p + p / 2 ^ 53 + 1 / 2 ^ 61" by (simp add: abs_le_iff)
  have "s < n" using e1 pr rn n1 r p0 by simp
  then show "fmul (of_nat i) r < of_nat len" by (simp add: fmul_def s_def p_def n_def)
qed


lemma interp_bounds:
  fixes a b t :: real
  assumes "0 \<le> t" "t \<le> 1" "lo \<le> a" "lo \<le> b" "a \<le> hi" "b \<le> hi"
  shows "lo \<le> a * (1 - t) + b * t" "a * (1 - t) + b * t \<le> hi"
proof -
  have "lo * (1 - t) \<le> a * (1 - t)" "lo * t \<le> b * t"
    using assms by (simp_all add: mult_right_mono)
  then have "lo * (1 - t) + lo * t \<le> a * (1 - t) + b * t" by linarith
  then show "lo \<le> a * (1 - t) + b * t" by (simp add: algebra_simps)
  have "a * (1 - t) \<le> hi * (1 - t)" "b * t \<le> hi * t"
    using assms by (simp_all add: mult_right_mono)
  then have "a * (1 - t) + b * t \<le> hi * (1 - t) + hi * t" by linarith
  then show "a * (1 - t) + b * t \<le> hi" by (simp add: algebra_simps)
qed

lemma abs_leD: "\<bar>x\<bar> \<le> c \<Longrightarrow> x \<le> c \<and> - c \<le> (x :: real)"
  by (simp add: abs_le_iff)

lemma abs_leI: "x \<le> c \<Longrightarrow> - c \<le> x \<Longrightarrow> \<bar>x :: real\<bar> \<le> c"
  by (simp add: abs_le_iff)

text \<open>The rounded interpolation of two 16-bit samples is a 16-bit value.\<close>

lemma interpolation_in_int16:
  fixes a b s :: real
  assumes a: "- 32768 \<le> a" "a \<le> 32767" and b: "- 32768 \<le> b" "b \<le> 32767"
  defines "t \<equiv> fsub s (of_int \<lfloor>s\<rfloor>)"
  shows "- 32768 \<le> Math_round (fadd (fmul a (fsub 1 t)) (fmul b t))"
    and "Math_round (fadd (fmul a (fsub 1 t)) (fmul b t)) \<le> 32767"
proof -
  define x0 where "x0 = s - of_int \<lfloor>s\<rfloor>"
  define u where "u = fsub 1 t"
  define P where "P = fmul a u"
  define R where "R = fmul b t"
  define v where "v = fadd P R"
  define w where "w = a * (1 - x0) + b * x0"
  have x0: "0 \<le> x0" "x0 \<le> 1" unfolding x0_def by linarith+
  have aa: "\<bar>a\<bar> \<le> 32768" by (intro abs_leI) (use a in simp_all)
  have bb: "\<bar>b\<bar> \<le> 32768" by (intro abs_leI) (use b in simp_all)
  have "\<bar>x0\<bar> \<le> 1" by (intro abs_leI) (use x0 in simp_all)
  then have t: "\<bar>t - x0\<bar> \<le> 1 / 2 ^ 53 + 1 / 2 ^ 61"
    unfolding t_def fsub_def x0_def [symmetric] by (rule fl64_err_bound)
  note tD = abs_leD [OF t]
  have t2a: "\<bar>t\<bar> \<le> 2" by (intro abs_leI) (use tD x0 in simp_all)
  have t2b: "\<bar>1 - t\<bar> \<le> 2" by (intro abs_leI) (use tD x0 in simp_all)
  note t2 = t2a t2b
  have u: "\<bar>u - (1 - t)\<bar> \<le> 2 / 2 ^ 53 + 1 / 2 ^ 61"
    unfolding u_def fsub_def by (rule fl64_err_bound [OF t2(2)])
  note uD = abs_leD [OF u]
  note t2D = abs_leD [OF t2(1)] abs_leD [OF t2(2)]
  have u2: "\<bar>u\<bar> \<le> 3" by (intro abs_leI) (use uD t2D in simp_all)
  have ux: "\<bar>u - (1 - x0)\<bar> \<le> 3 / 2 ^ 53 + 2 / 2 ^ 61" by (intro abs_leI) (use uD tD in simp_all)
  have au: "\<bar>a * u\<bar> \<le> 32768 * 3" by (rule abs_mult_bound [OF aa u2])
  have bt: "\<bar>b * t\<bar> \<le> 32768 * 2" by (rule abs_mult_bound [OF bb t2(1)])
  have P: "\<bar>P - a * u\<bar> \<le> (32768 * 3) / 2 ^ 53 + 1 / 2 ^ 61"
    unfolding P_def fmul_def by (rule fl64_err_bound [OF au])
  have R: "\<bar>R - b * t\<bar> \<le> (32768 * 2) / 2 ^ 53 + 1 / 2 ^ 61"
    unfolding R_def fmul_def by (rule fl64_err_bound [OF bt])
  note PD = abs_leD [OF P] and RD = abs_leD [OF R] and auD = abs_leD [OF au] and btD = abs_leD [OF bt]
  have PR: "\<bar>P + R\<bar> \<le> 2 ^ 18" by (intro abs_leI) (use PD RD auD btD in simp_all)
  have v: "\<bar>v - (P + R)\<bar> \<le> 2 ^ 18 / 2 ^ 53 + 1 / 2 ^ 61"
    unfolding v_def fadd_def by (rule fl64_err_bound [OF PR])
  have d1: "\<bar>a * (u - (1 - x0))\<bar> \<le> 32768 * (3 / 2 ^ 53 + 2 / 2 ^ 61)"
    by (rule abs_mult_bound [OF aa ux])
  have d2: "\<bar>b * (t - x0)\<bar> \<le> 32768 * (1 / 2 ^ 53 + 1 / 2 ^ 61)"
    by (rule abs_mult_bound [OF bb t])
  have eq: "a * u + b * t - w = a * (u - (1 - x0)) + b * (t - x0)"
    by (simp add: w_def algebra_simps)
  note vD = abs_leD [OF v] and d1D = abs_leD [OF d1] and d2D = abs_leD [OF d2]
  have w: "- 32768 \<le> w" "w \<le> 32767"
    unfolding w_def using interp_bounds [OF x0, of "- 32768" a b 32767] a b by simp_all
  have lo: "- 32768 \<le> v + 1 / 2" and hi: "v + 1 / 2 < 32768"
    using vD PD RD d1D d2D eq w by simp_all
  have "of_int (- 32768) \<le> v + 1 / 2" using lo by simp
  then have "- 32768 \<le> \<lfloor>v + 1 / 2\<rfloor>" by (simp only: le_floor_iff)
  then show "- 32768 \<le> Math_round (fadd (fmul a (fsub 1 t)) (fmul b t))"
    by (simp add: Math_round_def v_def P_def R_def u_def)
  have "v + 1 / 2 < of_int 32768" using hi by simp
  then have "\<lfloor>v + 1 / 2\<rfloor> < 32768" by (simp only: floor_less_iff)
  then show "Math_round (fadd (fmul a (fsub 1 t)) (fmul b t)) \<le> 32767"
    by (simp add: Math_round_def v_def P_def R_def u_def)
qed

lemma round_half_even_unique:
  assumes "\<bar>x - of_int m\<bar> < 1 / 2"
  shows "round_half_even x = m"
proof (cases "of_int m \<le> x")
  case True
  have "x < of_int m + 1" using assms by linarith
  with True have f: "\<lfloor>x\<rfloor> = m" by (intro floor_unique)
  have "x - of_int m < 1 / 2" using assms by linarith
  then show ?thesis unfolding round_half_even_def Let_def f by simp
next
  case False
  have "of_int (m - 1) \<le> x" "x < of_int (m - 1) + 1"
    using assms False by linarith+
  then have f: "\<lfloor>x\<rfloor> = m - 1" by (intro floor_unique)
  have "x - of_int m > - (1 / 2)" using assms by linarith
  then have "1 / 2 < x - of_int (m - 1)" by simp
  then show ?thesis unfolding round_half_even_def Let_def f by simp
qed

lemma bitlen_eqI:
  assumes "2 ^ j \<le> n" "n < 2 ^ Suc j"
  shows "bitlen n = int j + 1"
proof -
  have npos: "0 < n" using assms(1) by (smt (verit) zero_less_power)
  from bitlen_bounds [OF npos]
  have lo: "2 ^ nat (bitlen n - 1) \<le> n" and hi: "n < 2 ^ nat (bitlen n)" by simp_all
  have bpos: "1 \<le> bitlen n" using npos by (simp add: bitlen_alt_def)
  have "(2 :: int) ^ j < 2 ^ nat (bitlen n)" using assms(1) hi by linarith
  then have 1: "j < nat (bitlen n)" by (simp only: power_strict_increasing_iff) 
  have "(2 :: int) ^ nat (bitlen n - 1) < 2 ^ Suc j" using assms(2) lo by linarith
  then have 2: "nat (bitlen n - 1) < Suc j" by (simp only: power_strict_increasing_iff)
  show ?thesis using 1 2 bpos by linarith
qed

lemma fl64_normal_eqI:
  fixes x :: real and m :: int and e :: nat
  assumes e: "e \<le> 1022"
    and binade: "2 ^ 52 \<le> x * 2 ^ e" "x * 2 ^ e < 2 ^ 53"
    and near: "\<bar>x * 2 ^ e - of_int m\<bar> < 1 / 2"
  shows "fl64 x = of_int m / 2 ^ e"
proof -
  define y where "y = x * 2 ^ e"
  define k where "k = 1074 - e"
  define W :: real where "W = 2 ^ k"
  define s where "s = x * subnormal_scale"
  define n where "n = \<lfloor>s\<rfloor>"
  have ke: "k + e = 1074" using e by (simp add: k_def)
  have Wpos: "0 < W" by (simp add: W_def)
  have "(2 :: real) ^ (e + k) = 2 ^ 1074" by (simp only: add.commute [of e k] ke)
  then have sc: "subnormal_scale = 2 ^ e * W"
    unfolding subnormal_scale_def W_def by (simp only: power_add)
  have sy: "s = y * W" by (simp add: s_def y_def sc)
  have xpos: "0 < x" using binade(1) by (smt (verit) mult_nonpos_nonneg zero_less_power zero_le_power)
  have lo: "2 ^ (52 + k) \<le> s"
    unfolding sy power_add W_def [symmetric] using binade(1) Wpos
    by (intro mult_right_mono) (simp_all add: y_def)
  have hi: "s < 2 ^ (53 + k)"
    unfolding sy power_add W_def [symmetric] using binade(2) Wpos
    by (intro mult_strict_right_mono) (simp_all add: y_def)
  have "of_int (2 ^ (52 + k)) \<le> s" using lo by simp
  then have nlo: "2 ^ (52 + k) \<le> n" unfolding n_def by (simp only: le_floor_iff)
  have "s < of_int (2 ^ (53 + k))" using hi by simp
  then have nhi: "n < 2 ^ Suc (52 + k)" unfolding n_def by (simp only: floor_less_iff) simp
  have bl: "bitlen n = int (52 + k) + 1" by (rule bitlen_eqI [OF nlo nhi])
  have "(2 :: int) ^ 53 \<le> 2 ^ (52 + k)" using e by (intro power_increasing) (simp_all add: k_def)
  then have n53: "\<not> n < 2 ^ 53" using nlo by linarith
  have q: "(2 :: real) ^ nat (bitlen n - 53) = W" by (simp add: bl W_def)
  have r: "round_half_even (s / W) = m"
    by (rule round_half_even_unique) (use near Wpos in \<open>simp add: sy y_def\<close>)
  have "fl64_nonneg x = of_int m * W / subnormal_scale"
    using n53 unfolding fl64_nonneg_def Let_def s_def [symmetric] n_def [symmetric] q r by simp
  also have "\<dots> = of_int m / 2 ^ e" using Wpos by (simp add: sc)
  finally show ?thesis using xpos by (simp add: fl64_def)
qed

lemma fl64_zero [simp]: "fl64 0 = 0"
  by (simp add: fl64_def fl64_nonneg_def round_half_even_def)

lemma round_half_even_of_int: "round_half_even (of_int m) = m"
  by (rule round_half_even_unique) simp

lemma round_half_even_mono:
  assumes "x \<le> y"
  shows "round_half_even x \<le> round_half_even y"
proof (cases "\<lfloor>x\<rfloor> = \<lfloor>y\<rfloor>")
  case True
  have "x - of_int \<lfloor>y\<rfloor> \<le> y - of_int \<lfloor>y\<rfloor>" using assms by simp
  then show ?thesis unfolding round_half_even_def Let_def True by auto
next
  case False
  have "\<lfloor>x\<rfloor> \<le> \<lfloor>y\<rfloor>" using assms by (rule floor_mono)
  then have lt: "\<lfloor>x\<rfloor> + 1 \<le> \<lfloor>y\<rfloor>" using False by linarith
  have a: "round_half_even x \<le> \<lfloor>x\<rfloor> + 1" unfolding round_half_even_def Let_def by auto
  have b: "\<lfloor>y\<rfloor> \<le> round_half_even y" unfolding round_half_even_def Let_def by auto
  show ?thesis using a b lt by linarith
qed

text \<open>
  A scaled value is rounded on the grid of its binade: \<open>k = 0\<close> for the subnormal numbers
  and the first binade, \<open>k > 0\<close> above.
\<close>

lemma fl64_nonneg_eval:
  fixes s :: real and k :: nat
  assumes "k = 0 \<and> 0 \<le> s \<and> s < 2 ^ 53 \<or> 0 < k \<and> 2 ^ (52 + k) \<le> s \<and> s < 2 ^ (53 + k)"
  shows "fl64_nonneg (s / subnormal_scale) = of_int (round_half_even (s / 2 ^ k)) * 2 ^ k / subnormal_scale"
proof -
  define n where "n = \<lfloor>s\<rfloor>"
  have sp: "0 < subnormal_scale" by (rule subnormal_scale_pos)
  have xs: "s / subnormal_scale * subnormal_scale = s" using sp by simp
  show ?thesis
  proof (cases "k = 0")
    case True
    then have "s < of_int (2 ^ 53)" using assms by simp
    then have "n < 2 ^ 53" unfolding n_def by (simp only: floor_less_iff)
    then show ?thesis
      unfolding fl64_nonneg_def Let_def xs n_def [symmetric] using True by simp
  next
    case False
    then have k: "0 < k" and lo: "2 ^ (52 + k) \<le> s" and hi: "s < 2 ^ (53 + k)" using assms by simp_all
    have "of_int (2 ^ (52 + k)) \<le> s" using lo by simp
    then have nlo: "2 ^ (52 + k) \<le> n" unfolding n_def by (simp only: le_floor_iff)
    have "s < of_int (2 ^ (53 + k))" using hi by simp
    then have nhi: "n < 2 ^ Suc (52 + k)" unfolding n_def by (simp only: floor_less_iff) simp
    have bl: "bitlen n = int (52 + k) + 1" by (rule bitlen_eqI [OF nlo nhi])
    have "(2 :: int) ^ 53 \<le> 2 ^ (52 + k)" using k by (intro power_increasing) simp_all
    then have n53: "\<not> n < 2 ^ 53" using nlo by linarith
    have q: "(2 :: real) ^ nat (bitlen n - 53) = 2 ^ k" by (simp add: bl)
    show ?thesis
      using n53 unfolding fl64_nonneg_def Let_def xs n_def [symmetric] q by simp
  qed
qed

lemma binade_exists:
  fixes s :: real
  assumes "0 \<le> s"
  shows "\<exists>k :: nat. k = 0 \<and> 0 \<le> s \<and> s < 2 ^ 53 \<or> 0 < k \<and> 2 ^ (52 + k) \<le> s \<and> s < 2 ^ (53 + k)"
proof (cases "s < 2 ^ 53")
  case True
  then show ?thesis using assms by (intro exI [of _ 0]) simp
next
  case False
  define n where "n = \<lfloor>s\<rfloor>"
  have "of_int (2 ^ 53) \<le> s" using False by simp
  then have n53: "2 ^ 53 \<le> n" unfolding n_def by (simp only: le_floor_iff)
  then have npos: "0 < n" by (smt (verit) zero_less_power)
  from bitlen_bounds [OF npos] have lo: "2 ^ nat (bitlen n - 1) \<le> n" and hi: "n < 2 ^ nat (bitlen n)"
    by simp_all
  have "\<not> nat (bitlen n) \<le> 53"
  proof
    assume "nat (bitlen n) \<le> 53"
    then have "(2 :: int) ^ nat (bitlen n) \<le> 2 ^ 53" by (rule power_increasing) simp
    with n53 hi show False by linarith
  qed
  then have b: "53 < nat (bitlen n)" by simp
  define k where "k = nat (bitlen n) - 53"
  have k: "0 < k" using b by (simp add: k_def)
  have e1: "nat (bitlen n - 1) = 52 + k" using b by (simp add: k_def)
  have e2: "nat (bitlen n) = 53 + k" using b by (simp add: k_def)
  have "2 ^ (52 + k) \<le> n" using lo by (simp only: e1)
  then have "of_int (2 ^ (52 + k)) \<le> s" unfolding n_def by (simp only: le_floor_iff)
  then have l: "2 ^ (52 + k) \<le> s" by simp
  have "n < 2 ^ (53 + k)" using hi by (simp only: e2)
  then have "s < of_int (2 ^ (53 + k))" unfolding n_def by (simp only: floor_less_iff)
  then have h: "s < 2 ^ (53 + k)" by simp
  show ?thesis using k l h by (intro exI [of _ k]) simp
qed

lemma binade_round_bounds:
  fixes s :: real and k :: nat
  assumes "k = 0 \<and> 0 \<le> s \<and> s < 2 ^ 53 \<or> 0 < k \<and> 2 ^ (52 + k) \<le> s \<and> s < 2 ^ (53 + k)"
  shows "round_half_even (s / 2 ^ k) \<le> 2 ^ 53"
    and "0 \<le> round_half_even (s / 2 ^ k)"
    and "0 < k \<Longrightarrow> 2 ^ 52 \<le> round_half_even (s / 2 ^ k)"
proof -
  have hi: "s / 2 ^ k \<le> of_int (2 ^ 53)"
    using assms by (auto simp: power_add field_simps)
  from round_half_even_mono [OF hi] show "round_half_even (s / 2 ^ k) \<le> 2 ^ 53"
    by (simp only: round_half_even_of_int)
  have "0 \<le> s" using assms by (auto intro: order_trans [of 0 "2 ^ (52 + k)" s])
  then show "0 \<le> round_half_even (s / 2 ^ k)" by (intro round_half_even_nonneg) simp
  assume "0 < k"
  then have lo: "of_int (2 ^ 52) \<le> s / 2 ^ k" using assms by (auto simp: power_add field_simps)
  from round_half_even_mono [OF lo] show "2 ^ 52 \<le> round_half_even (s / 2 ^ k)"
    by (simp only: round_half_even_of_int)
qed

lemma fl64_nonneg_idem:
  assumes "0 \<le> x"
  shows "fl64_nonneg (fl64_nonneg x) = fl64_nonneg x"
proof -
  define s where "s = x * subnormal_scale"
  have sp: "0 < subnormal_scale" by (rule subnormal_scale_pos)
  have s0: "0 \<le> s" using assms sp by (simp add: s_def)
  have xs: "x = s / subnormal_scale" using sp by (simp add: s_def)
  from binade_exists [OF s0] obtain k :: nat where
    k: "k = 0 \<and> 0 \<le> s \<and> s < 2 ^ 53 \<or> 0 < k \<and> 2 ^ (52 + k) \<le> s \<and> s < 2 ^ (53 + k)" by blast
  define M where "M = round_half_even (s / 2 ^ k)"
  define v :: real where "v = of_int M * 2 ^ k"
  have f: "fl64_nonneg x = v / subnormal_scale"
    unfolding xs v_def M_def by (rule fl64_nonneg_eval [OF k])
  note b = binade_round_bounds [OF k, folded M_def]
  show ?thesis
  proof (cases "M = 2 ^ 53")
    case True
    have v: "v = 2 ^ (52 + Suc k)" by (simp add: v_def True power_add)
    have k': "Suc k = 0 \<and> 0 \<le> v \<and> v < 2 ^ 53 \<or>
              0 < Suc k \<and> 2 ^ (52 + Suc k) \<le> v \<and> v < 2 ^ (53 + Suc k)"
      unfolding v by simp
    have "v / 2 ^ Suc k = of_int (2 ^ 52)" unfolding v by (simp add: power_add)
    then have "round_half_even (v / 2 ^ Suc k) = 2 ^ 52" by (simp only: round_half_even_of_int)
    then have "fl64_nonneg (v / subnormal_scale) = v / subnormal_scale"
      unfolding fl64_nonneg_eval [OF k'] by (simp add: v power_add)
    then show ?thesis by (simp only: f)
  next
    case False
    then have M53: "M < 2 ^ 53" using b(1) by simp
    then have "real_of_int M < of_int (2 ^ 53)" by (simp only: of_int_less_iff)
    then have Mr: "real_of_int M < 2 ^ 53" by simp
    have M0: "0 \<le> real_of_int M" using b(2) by simp
    have k': "k = 0 \<and> 0 \<le> v \<and> v < 2 ^ 53 \<or> 0 < k \<and> 2 ^ (52 + k) \<le> v \<and> v < 2 ^ (53 + k)"
    proof (cases "k = 0")
      case True
      then show ?thesis using Mr M0 by (simp add: v_def)
    next
      case kp: False
      then have "2 ^ 52 \<le> M" using b(3) by simp
      then have "real_of_int (2 ^ 52) \<le> of_int M" by (simp only: of_int_le_iff)
      then have Ml: "2 ^ 52 \<le> real_of_int M" by simp
      have "2 ^ 52 * 2 ^ k \<le> v" unfolding v_def using Ml by (intro mult_right_mono) simp_all
      moreover have "v < 2 ^ 53 * 2 ^ k" unfolding v_def using Mr by (intro mult_strict_right_mono) simp_all
      ultimately show ?thesis using kp by (simp add: power_add)
    qed
    have "v / 2 ^ k = of_int M" by (simp add: v_def)
    then have "round_half_even (v / 2 ^ k) = M" by (simp only: round_half_even_of_int)
    then have "fl64_nonneg (v / subnormal_scale) = v / subnormal_scale"
      unfolding fl64_nonneg_eval [OF k'] by (simp add: v_def)
    then show ?thesis by (simp only: f)
  qed
qed

lemma fl64_nonneg_zero: "fl64_nonneg 0 = 0"
  by (simp add: fl64_nonneg_def round_half_even_def)

lemma fl64_idem: "fl64 (fl64 x) = fl64 x"
proof (cases "x < 0")
  case True
  have n: "0 \<le> fl64_nonneg (- x)" by (rule fl64_nonneg_nonneg) (use True in simp)
  show ?thesis
  proof (cases "fl64_nonneg (- x) = 0")
    case z: True
    then show ?thesis using True by (simp add: fl64_def fl64_nonneg_zero)
  next
    case False
    then have "- fl64_nonneg (- x) < 0" using n by simp
    then have "fl64 (- fl64_nonneg (- x)) = - fl64_nonneg (fl64_nonneg (- x))"
      by (simp add: fl64_def)
    also have "\<dots> = - fl64_nonneg (- x)" using True by (simp add: fl64_nonneg_idem)
    finally show ?thesis using True by (simp add: fl64_def)
  qed
next
  case False
  then have x: "0 \<le> x" by simp
  have n: "0 \<le> fl64_nonneg x" by (rule fl64_nonneg_nonneg [OF x])
  then have "fl64 (fl64_nonneg x) = fl64_nonneg (fl64_nonneg x)" by (simp add: fl64_def)
  then show ?thesis using False by (simp add: fl64_def fl64_nonneg_idem [OF x])
qed

lemma fl64_nonneg_mono:
  assumes "0 \<le> x" "x \<le> y"
  shows "fl64_nonneg x \<le> fl64_nonneg y"
proof -
  define s where "s = x * subnormal_scale"
  define t where "t = y * subnormal_scale"
  have sp: "0 < subnormal_scale" by (rule subnormal_scale_pos)
  have s0: "0 \<le> s" using assms sp by (simp add: s_def)
  have st: "s \<le> t" using assms sp by (simp add: s_def t_def)
  have t0: "0 \<le> t" using s0 st by simp
  have xs: "x = s / subnormal_scale" using sp by (simp add: s_def)
  have yt: "y = t / subnormal_scale" using sp by (simp add: t_def)
  from binade_exists [OF s0] obtain k :: nat where
    k: "k = 0 \<and> 0 \<le> s \<and> s < 2 ^ 53 \<or> 0 < k \<and> 2 ^ (52 + k) \<le> s \<and> s < 2 ^ (53 + k)" by blast
  from binade_exists [OF t0] obtain j :: nat where
    j: "j = 0 \<and> 0 \<le> t \<and> t < 2 ^ 53 \<or> 0 < j \<and> 2 ^ (52 + j) \<le> t \<and> t < 2 ^ (53 + j)" by blast
  define M where "M = round_half_even (s / 2 ^ k)"
  define N where "N = round_half_even (t / 2 ^ j)"
  have fx: "fl64_nonneg x = of_int M * 2 ^ k / subnormal_scale"
    unfolding xs M_def by (rule fl64_nonneg_eval [OF k])
  have fy: "fl64_nonneg y = of_int N * 2 ^ j / subnormal_scale"
    unfolding yt N_def by (rule fl64_nonneg_eval [OF j])
  note bM = binade_round_bounds [OF k, folded M_def]
  note bN = binade_round_bounds [OF j, folded N_def]
  have kj: "k \<le> j"
  proof (rule ccontr)
    assume "\<not> k \<le> j"
    then have jk: "j < k" by simp
    then have kp: "0 < k" by simp
    have "t < 2 ^ (53 + j)" using j by (auto simp: power_add)
    also have "(2 :: real) ^ (53 + j) \<le> 2 ^ (52 + k)" using jk by (intro power_increasing) simp_all
    also have "\<dots> \<le> s" using k kp by simp
    finally show False using st by simp
  qed
  have "real_of_int M * 2 ^ k \<le> of_int N * 2 ^ j"
  proof (cases "k = j")
    case True
    have "s / 2 ^ j \<le> t / 2 ^ j" using st by (simp add: divide_right_mono)
    then have "M \<le> N" unfolding M_def N_def True by (rule round_half_even_mono)
    then have "real_of_int M \<le> of_int N" by (simp only: of_int_le_iff)
    then show ?thesis unfolding True by (intro mult_right_mono) simp_all
  next
    case False
    then have lt: "k < j" using kj by simp
    then have jp: "0 < j" by simp
    have "real_of_int M \<le> of_int (2 ^ 53)" using bM(1) by (simp only: of_int_le_iff)
    then have "real_of_int M * 2 ^ k \<le> 2 ^ 53 * 2 ^ k" by (intro mult_right_mono) simp_all
    also have "\<dots> = 2 ^ (53 + k)" by (simp add: power_add)
    also have "\<dots> \<le> 2 ^ (52 + j)" using lt by (intro power_increasing) simp_all
    also have "\<dots> = 2 ^ 52 * 2 ^ j" by (simp add: power_add)
    also have "\<dots> \<le> of_int N * 2 ^ j"
    proof -
      have "real_of_int (2 ^ 52) \<le> of_int N" using bN(3) [OF jp] by (simp only: of_int_le_iff)
      then show ?thesis by (intro mult_right_mono) simp_all
    qed
    finally show ?thesis .
  qed
  then show ?thesis unfolding fx fy using sp by (intro divide_right_mono) simp_all
qed

lemma fl64_mono:
  assumes "x \<le> y"
  shows "fl64 x \<le> fl64 y"
proof (cases "x < 0")
  case True
  show ?thesis
  proof (cases "y < 0")
    case y: True
    have "fl64_nonneg (- y) \<le> fl64_nonneg (- x)"
      by (rule fl64_nonneg_mono) (use assms y in simp_all)
    then show ?thesis using True y by (simp add: fl64_def)
  next
    case False
    have "0 \<le> fl64_nonneg (- x)" by (rule fl64_nonneg_nonneg) (use True in simp)
    moreover have "0 \<le> fl64_nonneg y" by (rule fl64_nonneg_nonneg) (use False in simp)
    ultimately show ?thesis using True False by (simp add: fl64_def)
  qed
next
  case False
  then have "fl64_nonneg x \<le> fl64_nonneg y" using assms by (intro fl64_nonneg_mono) simp_all
  then show ?thesis using False assms by (simp add: fl64_def)
qed

text \<open>The type of doubles.\<close>

lemma val_dbl: "val (dbl x) = fl64 x"
  by (simp add: val_def dbl_def Abs_double_inverse)

lemma fl64_val: "fl64 (val d) = val d"
proof -
  from Rep_double [of d] obtain x where "Rep_double d = fl64 x" by blast
  then show ?thesis by (simp add: val_def fl64_idem)
qed

lemma dbl_val: "dbl (val d) = d"
  by (simp add: dbl_def fl64_val) (simp add: val_def Rep_double_inverse)

lemma val_dadd: "val (dadd a b) = fl64 (val a + val b)"
  by (simp add: dadd_def val_dbl)

lemma val_dbl_nonneg: "0 \<le> x \<Longrightarrow> 0 \<le> val (dbl x)"
  by (simp add: val_dbl fl64_nonneg_iff)

text \<open>Adding a double that is not negative does not make a double smaller.\<close>

lemma dadd_ge:
  assumes "0 \<le> val b"
  shows "val a \<le> val (dadd a b)"
proof -
  have "fl64 (val a) \<le> fl64 (val a + val b)" by (rule fl64_mono) (use assms in simp)
  then show ?thesis by (simp add: val_dadd fl64_val)
qed

lemma dadd_ge_trans:
  assumes "val t \<le> val a" "0 \<le> val b"
  shows "val t \<le> val (dadd a b)"
  using dadd_ge [OF assms(2), of a] assms(1) by simp

lemma dadd_not_less:
  assumes "val t \<le> val a" "0 \<le> val b"
  shows "\<not> val (dadd a b) < val t"
  using dadd_ge_trans [OF assms] by simp

lemmas double_order = dadd_ge_trans dadd_not_less val_dbl_nonneg

lemma val_dbl_le: "x \<le> y \<Longrightarrow> val (dbl x) \<le> fl64 y"
  by (simp add: val_dbl fl64_mono)

lemma val_dadd_le: "val a \<le> x \<Longrightarrow> val b \<le> y \<Longrightarrow> val (dadd a b) \<le> fl64 (x + y)"
  by (simp add: val_dadd fl64_mono)

text \<open>A real with a 53-bit significand is a double.\<close>

lemma fl64_exact:
  fixes x :: real and m :: int and e :: nat
  assumes "e \<le> 1022" "x * 2 ^ e = of_int m" "2 ^ 52 \<le> m" "m < 2 ^ 53"
  shows "fl64 x = x"
proof -
  have "real_of_int (2 ^ 52) \<le> of_int m" "real_of_int m < of_int (2 ^ 53)"
    using assms(3,4) by (simp_all only: of_int_le_iff of_int_less_iff)
  then have b: "2 ^ 52 \<le> x * 2 ^ e" "x * 2 ^ e < 2 ^ 53" by (simp_all add: assms(2))
  have "fl64 x = of_int m / 2 ^ e"
    by (rule fl64_normal_eqI [OF assms(1) b]) (simp add: assms(2))
  also have "\<dots> = x" by (simp add: assms(2) [symmetric])
  finally show ?thesis .
qed

lemma fl64_one: "fl64 1 = 1"
  by (rule fl64_exact [where e = 52 and m = "2 ^ 52"]) simp_all

lemma val_dbl_one: "val (dbl 1) = 1"
  by (simp add: val_dbl fl64_one)


section \<open>Properties of the resampler\<close>

lemma sint_int16_bounds: "- 32768 \<le> sint (w :: int16) \<and> sint w \<le> 32767"
  using sint_range_size [of w] by (simp add: word_size)

lemma resample_loop_length:
  "length (resample_loop input ratio n i out) = length out"
  by (induction input ratio n i out rule: resample_loop.induct) (subst resample_loop.simps, simp)

lemma resample_loop_nth:
  "length out = n \<Longrightarrow> k < n \<Longrightarrow>
   resample_loop input ratio n i out ! k =
     (if i \<le> k then resample_sample input ratio k else out ! k)"
proof (induction input ratio n i out rule: resample_loop.induct)
  case (1 input ratio outputLength i out)
  show ?case
  proof (cases "i < outputLength")
    case True
    have "resample_loop input ratio outputLength i out ! k =
          resample_loop input ratio outputLength (Suc i) (out[i := resample_sample input ratio i]) ! k"
      using True by (subst resample_loop.simps) simp
    also have "\<dots> = (if Suc i \<le> k then resample_sample input ratio k
                      else (out[i := resample_sample input ratio i]) ! k)"
      using "1.IH" [OF True] "1.prems" by simp
    also have "\<dots> = (if i \<le> k then resample_sample input ratio k else out ! k)"
      using "1.prems" True by (cases "i = k") (auto simp: nth_list_update)
    finally show ?thesis .
  next
    case False
    then show ?thesis using "1.prems" by (subst resample_loop.simps) simp
  qed
qed

lemma sint_int16_real_bounds:
  "- 32768 \<le> (of_int (sint (w :: int16)) :: real) \<and> (of_int (sint w) :: real) \<le> 32767"
proof -
  have "- 32768 \<le> sint w" "sint w \<le> 32767" using sint_int16_bounds [of w] by simp_all
  then have "(of_int (- 32768) :: real) \<le> of_int (sint w)" "(of_int (sint w) :: real) \<le> of_int 32767"
    by (simp_all only: of_int_le_iff)
  then show ?thesis by simp
qed

lemma resample_loop_eq_map:
  "resample_loop input ratio n 0 (replicate n 0) = map (resample_sample input ratio) [0..<n]"
  by (rule nth_equalityI) (simp_all add: resample_loop_length resample_loop_nth)


lemma resample_sample_value:
  fixes ratio :: real
  assumes r: "0 < ratio"
    and N: "N = nat \<lfloor>fdiv (of_nat (length input)) ratio\<rfloor>" "N \<le> 2 ^ 32" and i: "i < N"
  defines "s \<equiv> fmul (of_nat i) ratio"
  defines "t \<equiv> fsub s (of_int \<lfloor>s\<rfloor>)"
  shows "0 \<le> \<lfloor>s\<rfloor>" and "\<lfloor>s\<rfloor> < int (length input)"
    and "sint (resample_sample input ratio i) =
         Math_round
           (fadd (fmul (of_int (sint (input ! nat \<lfloor>s\<rfloor>))) (fsub 1 t))
                 (fmul (of_int (sint (input ! nat (min (\<lfloor>s\<rfloor> + 1) (int (length input) - 1))))) t))"
proof -
  define ce where "ce = min (\<lfloor>s\<rfloor> + 1) (int (length input) - 1)"
  define a :: real where "a = of_int (sint (input ! nat \<lfloor>s\<rfloor>))"
  define b :: real where "b = of_int (sint (input ! nat ce))"
  have s: "0 \<le> s" "s < of_nat (length input)"
    unfolding s_def using src_index_in_range [OF r N i] by simp_all
  show fl0: "0 \<le> \<lfloor>s\<rfloor>" using s(1) by simp
  have "s < of_int (int (length input))" using s(2) by simp
  then show fl1: "\<lfloor>s\<rfloor> < int (length input)" by (simp only: floor_less_iff)
  have ce: "0 \<le> ce" "ce < int (length input)" unfolding ce_def using fl0 fl1 by linarith+
  have ab: "- 32768 \<le> a" "a \<le> 32767" "- 32768 \<le> b" "b \<le> 32767"
    using sint_int16_real_bounds [of "input ! nat \<lfloor>s\<rfloor>"] sint_int16_real_bounds [of "input ! nat ce"]
    unfolding a_def b_def by simp_all
  have v: "- 32768 \<le> Math_round (fadd (fmul a (fsub 1 t)) (fmul b t))"
      "Math_round (fadd (fmul a (fsub 1 t)) (fmul b t)) \<le> 32767"
    unfolding t_def using interpolation_in_int16 [OF ab, of s] by simp_all
  have "resample_sample input ratio i = ToInt16 (of_int (Math_round (fadd (fmul a (fsub 1 t)) (fmul b t))))"
    using fl0 fl1 ce unfolding resample_sample_def sample_at_def Let_def
    by (simp add: s_def [symmetric] ce_def [symmetric] t_def [symmetric] a_def b_def)
  then have "sint (resample_sample input ratio i) = Math_round (fadd (fmul a (fsub 1 t)) (fmul b t))"
    using v by (simp add: ToInt16_def js_trunc_def sint_int16)
  then show "sint (resample_sample input ratio i) =
         Math_round
           (fadd (fmul (of_int (sint (input ! nat \<lfloor>s\<rfloor>))) (fsub 1 t))
                 (fmul (of_int (sint (input ! nat (min (\<lfloor>s\<rfloor> + 1) (int (length input) - 1))))) t))"
    by (simp add: a_def b_def ce_def)
qed

lemma resample_value:
  assumes "sourceSampleRate \<noteq> targetSampleRate" "targetSampleRate \<noteq> 0"
    and "\<bar>sourceSampleRate / targetSampleRate\<bar> < overflow_threshold"
    and "0 < fdiv sourceSampleRate targetSampleRate"
    and "fdiv (of_nat (length input)) (fdiv sourceSampleRate targetSampleRate) < 2 ^ 53"
  shows "resample input sourceSampleRate targetSampleRate =
         Inr (map (resample_sample input (fdiv sourceSampleRate targetSampleRate))
                [0..<nat \<lfloor>fdiv (of_nat (length input)) (fdiv sourceSampleRate targetSampleRate)\<rfloor>])"
  using assms unfolding resample_def Let_def by (simp add: resample_loop_eq_map)

lemma floor_le_imp_less_succ:
  fixes q :: real
  assumes "nat \<lfloor>q\<rfloor> \<le> 2 ^ 32"
  shows "q < 2 ^ 53"
proof -
  have "int (nat \<lfloor>q\<rfloor>) \<le> 2 ^ 32"
    using assms by (metis of_nat_le_iff of_nat_numeral of_nat_power)
  then have "\<lfloor>q\<rfloor> \<le> 2 ^ 32" by linarith
  then have "q < of_int (2 ^ 32) + 1" by (simp only: floor_le_iff)
  then show ?thesis by simp
qed

lemma fmul_zero_left: "fmul 0 x = 0"
  by (simp add: fmul_def)

text \<open>
  Claim C8. The resampler is a function of its arguments alone. With equal rates it returns
  its input unchanged. With distinct positive rates, \<open>ratio\<close> the quotient of the rates as
  the program computes it (a double, here neither zero nor infinite) and
  \<open>n = \<lfloor>length / ratio\<rfloor>\<close>, again as computed, at most \<open>2^32\<close>: the call succeeds, the
  output has \<open>n\<close> samples, and sample \<open>i\<close> is the rounding to the nearest integer of the
  linear interpolation between the input samples at \<open>\<lfloor>i * ratio\<rfloor>\<close> and
  \<open>min (\<lfloor>i * ratio\<rfloor> + 1) (length - 1)\<close>, with the weight \<open>t = i * ratio - \<lfloor>i * ratio\<rfloor>\<close>,
  every operation rounded as the program's is; the index \<open>\<lfloor>i * ratio\<rfloor>\<close> is inside the
  input and the stored value does not wrap around.
\<close>

theorem resample_identity_and_interpolation:
  "resample buf R R = Inr buf \<and>
   (0 < src \<and> 0 < tgt \<and> src \<noteq> tgt \<and> src / tgt < overflow_threshold \<and> 0 < fdiv src tgt \<and>
    nat \<lfloor>fdiv (of_nat (length buf)) (fdiv src tgt)\<rfloor> \<le> 2 ^ 32 \<longrightarrow>
     (let ratio = fdiv src tgt; n = nat \<lfloor>fdiv (of_nat (length buf)) ratio\<rfloor>
      in \<exists>out. resample buf src tgt = Inr out \<and> length out = n \<and>
           (\<forall>i < n.
              let s = fmul (of_nat i) ratio;
                  lo = \<lfloor>s\<rfloor>;
                  hi = min (lo + 1) (int (length buf) - 1);
                  t = fsub s (of_int lo)
              in 0 \<le> lo \<and> lo < int (length buf) \<and>
                 sint (out ! i) =
                   Math_round
                     (fadd (fmul (of_int (sint (buf ! nat lo))) (fsub 1 t))
                           (fmul (of_int (sint (buf ! nat hi))) t)))))"
proof (intro conjI impI)
  show "resample buf R R = Inr buf" by (simp add: resample_def)
next
  assume h: "0 < src \<and> 0 < tgt \<and> src \<noteq> tgt \<and> src / tgt < overflow_threshold \<and> 0 < fdiv src tgt \<and>
    nat \<lfloor>fdiv (of_nat (length buf)) (fdiv src tgt)\<rfloor> \<le> 2 ^ 32"
  define ratio where "ratio = fdiv src tgt"
  define n where "n = nat \<lfloor>fdiv (of_nat (length buf)) ratio\<rfloor>"
  have pos: "0 < ratio" and n: "n \<le> 2 ^ 32" using h by (simp_all add: ratio_def n_def)
  have q: "fdiv (of_nat (length buf)) ratio < 2 ^ 53"
    using n unfolding n_def by (rule floor_le_imp_less_succ)
  have "0 < src / tgt" using h by simp
  then have ab: "\<bar>src / tgt\<bar> < overflow_threshold" using h by simp
  have eq: "resample buf src tgt = Inr (map (resample_sample buf ratio) [0..<n])"
    unfolding ratio_def n_def
    by (rule resample_value) (use h ab q in \<open>simp_all add: ratio_def\<close>)
  have "\<forall>i < n.
          0 \<le> \<lfloor>fmul (of_nat i) ratio\<rfloor> \<and> \<lfloor>fmul (of_nat i) ratio\<rfloor> < int (length buf) \<and>
          sint (map (resample_sample buf ratio) [0..<n] ! i) =
            Math_round
              (fadd (fmul (of_int (sint (buf ! nat \<lfloor>fmul (of_nat i) ratio\<rfloor>)))
                          (fsub 1 (fsub (fmul (of_nat i) ratio) (of_int \<lfloor>fmul (of_nat i) ratio\<rfloor>))))
                    (fmul (of_int (sint (buf ! nat (min (\<lfloor>fmul (of_nat i) ratio\<rfloor> + 1) (int (length buf) - 1)))))
                          (fsub (fmul (of_nat i) ratio) (of_int \<lfloor>fmul (of_nat i) ratio\<rfloor>))))"
  proof (intro allI impI)
    fix i assume i: "i < n"
    note v = resample_sample_value [OF pos n_def n i]
    show "0 \<le> \<lfloor>fmul (of_nat i) ratio\<rfloor> \<and> \<lfloor>fmul (of_nat i) ratio\<rfloor> < int (length buf) \<and>
          sint (map (resample_sample buf ratio) [0..<n] ! i) =
            Math_round
              (fadd (fmul (of_int (sint (buf ! nat \<lfloor>fmul (of_nat i) ratio\<rfloor>)))
                          (fsub 1 (fsub (fmul (of_nat i) ratio) (of_int \<lfloor>fmul (of_nat i) ratio\<rfloor>))))
                    (fmul (of_int (sint (buf ! nat (min (\<lfloor>fmul (of_nat i) ratio\<rfloor> + 1) (int (length buf) - 1)))))
                          (fsub (fmul (of_nat i) ratio) (of_int \<lfloor>fmul (of_nat i) ratio\<rfloor>))))"
      using v i by simp
  qed
  then show "let ratio = fdiv src tgt; n = nat \<lfloor>fdiv (of_nat (length buf)) ratio\<rfloor>
      in \<exists>out. resample buf src tgt = Inr out \<and> length out = n \<and>
           (\<forall>i < n.
              let s = fmul (of_nat i) ratio;
                  lo = \<lfloor>s\<rfloor>;
                  hi = min (lo + 1) (int (length buf) - 1);
                  t = fsub s (of_int lo)
              in 0 \<le> lo \<and> lo < int (length buf) \<and>
                 sint (out ! i) =
                   Math_round
                     (fadd (fmul (of_int (sint (buf ! nat lo))) (fsub 1 t))
                           (fmul (of_int (sint (buf ! nat hi))) t)))"
    unfolding Let_def ratio_def [symmetric] n_def [symmetric] using eq by simp
qed

theorem resample_identity_and_interpolation_witness:
  "resample [0, 0, 0, 0, 0, 40, 0, 0, 0] 44100 44100 = Inr [0, 0, 0, 0, 0, 40, 0, 0, 0] \<and>
   (0 :: real) < 44100 \<and> (0 :: real) < 16000 \<and> (44100 :: real) \<noteq> 16000 \<and>
   44100 / 16000 < overflow_threshold \<and> 0 < fdiv 44100 16000 \<and>
   nat \<lfloor>fdiv (of_nat (length [0 :: int16, 0, 0, 0, 0, 40, 0, 0, 0])) (fdiv 44100 16000)\<rfloor> \<le> 2 ^ 32 \<and>
   (\<exists>out. resample [0, 0, 0, 0, 0, 40, 0, 0, 0] 44100 16000 = Inr out \<and> length out = 3 \<and>
      sint (out ! 2) = 19)"
proof -
  define buf :: "int16 list" where "buf = [0, 0, 0, 0, 0, 40, 0, 0, 0]"
  define ratio0 :: real where "ratio0 = 6206523236469965 / 2 ^ 51"
  define q0 :: real where "q0 = 7352815718155912 / 2 ^ 51"
  define s0 :: real where "s0 = 6206523236469965 / 2 ^ 50"
  define t0 :: real where "t0 = 4616189618054760 / 2 ^ 53"
  define u0 :: real where "u0 = 8782019273372464 / 2 ^ 54"
  define p0 :: real where "p0 = 5488762045857790 / 2 ^ 48"
  have "fl64 (44100 / 16000) = of_int 6206523236469965 / 2 ^ 51"
    by (rule fl64_normal_eqI) simp_all
  then have r: "fdiv 44100 16000 = ratio0" by (simp add: fdiv_def ratio0_def)
  have "fl64 (9 / (6206523236469965 / 2 ^ 51)) = of_int 7352815718155912 / 2 ^ 51"
    by (rule fl64_normal_eqI) simp_all
  then have q: "fdiv 9 ratio0 = q0" by (simp add: fdiv_def ratio0_def q0_def)
  have "fl64 (2 * (6206523236469965 / 2 ^ 51)) = of_int 6206523236469965 / 2 ^ 50"
    by (rule fl64_normal_eqI) simp_all
  then have s: "fmul 2 ratio0 = s0" by (simp add: fmul_def ratio0_def s0_def)
  have "fl64 (6206523236469965 / 2 ^ 50 - 5) = of_int 4616189618054760 / 2 ^ 53"
    by (rule fl64_normal_eqI) simp_all
  then have t: "fsub s0 5 = t0" by (simp add: fsub_def s0_def t0_def)
  have "fl64 (1 - 4616189618054760 / 2 ^ 53) = of_int 8782019273372464 / 2 ^ 54"
    by (rule fl64_normal_eqI) simp_all
  then have u: "fsub 1 t0 = u0" by (simp add: fsub_def t0_def u0_def)
  have "fl64 (40 * (8782019273372464 / 2 ^ 54)) = of_int 5488762045857790 / 2 ^ 48"
    by (rule fl64_normal_eqI) simp_all
  then have p: "fmul 40 u0 = p0" by (simp add: fmul_def u0_def p0_def)
  have "fl64 (5488762045857790 / 2 ^ 48) = of_int 5488762045857790 / 2 ^ 48"
    by (rule fl64_normal_eqI) simp_all
  then have v: "fadd p0 0 = p0" by (simp add: fadd_def p0_def)
  have fq: "\<lfloor>q0\<rfloor> = 3" by (simp add: q0_def)
  have fs: "\<lfloor>s0\<rfloor> = 5" by (simp add: s0_def)
  have m: "Math_round p0 = 19" by (simp add: Math_round_def p0_def)
  have len: "real (length buf) = 9" by (simp add: buf_def)
  have thr: "(44100 / 16000 :: real) < overflow_threshold" by (simp add: overflow_threshold_def)
  have rpos: "0 < ratio0" by (simp add: ratio0_def)
  note spec = resample_identity_and_interpolation [where buf = buf and R = 44100 and src = 44100 and tgt = 16000]
  from spec have id: "resample buf 44100 44100 = Inr buf" by blast
  have hyp: "(0 :: real) < 44100 \<and> (0 :: real) < 16000 \<and> (44100 :: real) \<noteq> 16000 \<and>
      44100 / 16000 < overflow_threshold \<and> 0 < fdiv 44100 16000 \<and>
      nat \<lfloor>fdiv (of_nat (length buf)) (fdiv 44100 16000)\<rfloor> \<le> 2 ^ 32"
    using thr rpos by (simp add: r len q fq)
  from spec hyp obtain out where
    out: "resample buf 44100 16000 = Inr out" and l: "length out = 3"
    and val: "\<forall>i < 3 :: nat.
              let s = fmul (of_nat i) ratio0;
                  lo = \<lfloor>s\<rfloor>;
                  hi = min (lo + 1) (int (length buf) - 1);
                  t = fsub s (of_int lo)
              in 0 \<le> lo \<and> lo < int (length buf) \<and>
                 sint (out ! i) =
                   Math_round
                     (fadd (fmul (of_int (sint (buf ! nat lo))) (fsub 1 t))
                           (fmul (of_int (sint (buf ! nat hi))) t))"
    unfolding r len q fq Let_def by auto
  have "sint (out ! 2) = 19"
    using val [rule_format, of 2] by (simp add: Let_def s fs t u buf_def p v m fmul_zero_left)
  then show ?thesis using id out l hyp unfolding buf_def by simp
qed

text \<open>
  Nine samples resampled at the ratio 9 : 7 give six samples, not seven: the ratio is
  rounded upwards, so the quotient \<open>9 / ratio\<close> falls just below 7.
\<close>

lemma resample_nine_to_seven_length:
  "\<exists>out. resample [0, 0, 0, 0, 0, 0, 0, 0, 0] 9 7 = Inr out \<and> length out = 6"
proof -
  define ratio0 :: real where "ratio0 = 5790342378047781 / 2 ^ 52"
  define q0 :: real where "q0 = 7881299347898367 / 2 ^ 50"
  have "fl64 (9 / 7) = of_int 5790342378047781 / 2 ^ 52"
    by (rule fl64_normal_eqI) simp_all
  then have r: "fdiv 9 7 = ratio0" by (simp add: fdiv_def ratio0_def)
  have "fl64 (9 / (5790342378047781 / 2 ^ 52)) = of_int 7881299347898367 / 2 ^ 50"
    by (rule fl64_normal_eqI) simp_all
  then have q: "fdiv 9 ratio0 = q0" by (simp add: fdiv_def ratio0_def q0_def)
  have rpos: "0 < ratio0" by (simp add: ratio0_def)
  have q53: "q0 < 2 ^ 53" by (simp add: q0_def)
  have fq: "\<lfloor>q0\<rfloor> = 6" by (simp add: q0_def)
  have thr: "\<bar>9 / 7 :: real\<bar> < overflow_threshold" by (simp add: overflow_threshold_def)
  have "resample [0, 0, 0, 0, 0, 0, 0, 0, 0] 9 7 =
        Inr (map (resample_sample [0, 0, 0, 0, 0, 0, 0, 0, 0] (fdiv 9 7))
               [0..<nat \<lfloor>fdiv (of_nat (length [0 :: int16, 0, 0, 0, 0, 0, 0, 0, 0])) (fdiv 9 7)\<rfloor>])"
    by (rule resample_value) (use thr rpos q53 in \<open>simp_all add: r q\<close>)
  then show ?thesis by (simp add: r q fq)
qed


section \<open>Properties of the playback scheduler\<close>

lemma duration_nonneg: "0 \<le> val (duration b)"
  by (simp add: duration_def val_dbl_nonneg)

lemma anchor_delay_nonneg: "0 \<le> val (dbl (5 / 100))"
  by (simp add: val_dbl_nonneg)

lemma anchor_not_before: "\<not> val (dadd now (dbl (5 / 100))) < val now"
  using dadd_ge [OF anchor_delay_nonneg, of now] by simp

lemma contiguous_snoc:
  "contiguous (xs @ [s]) = (contiguous xs \<and> (xs = [] \<or> contiguous_step (last xs) s))"
  by (induction xs rule: contiguous.induct) auto

lemma contiguous_nth:
  "contiguous xs \<Longrightarrow> Suc i < length xs \<Longrightarrow> contiguous_step (xs ! i) (xs ! Suc i)"
proof (induction xs arbitrary: i rule: contiguous.induct)
  case (1 a b rest)
  then show ?case by (cases i) auto
qed auto

text \<open>What one call of scheduleBuffer appends.\<close>

lemma scheduled_scheduleBuffer:
  "ctx e = Some c \<Longrightarrow>
   scheduled (scheduleBuffer now b e) =
     scheduled e @ [\<lparr>src_buffer = b,
                     startWhen = (if val (nextStartTime e) < val now then dadd now (dbl (5 / 100))
                                  else nextStartTime e),
                     startCalledAt = now\<rparr>]"
  by (simp add: scheduleBuffer_def scheduled_def Let_def)

lemma scheduleBuffer_fields:
  "ctx e = Some c \<Longrightarrow>
   nextStartTime (scheduleBuffer now b e) =
     dadd (if val (nextStartTime e) < val now then dadd now (dbl (5 / 100)) else nextStartTime e)
       (duration b) \<and>
   started (scheduleBuffer now b e) = started e \<and>
   bufferedChunks (scheduleBuffer now b e) = bufferedChunks e \<and>
   destroyed (scheduleBuffer now b e) = destroyed e \<and>
   pendingSources (scheduleBuffer now b e) = pendingSources e + 1 \<and>
   (\<exists>c'. ctx (scheduleBuffer now b e) = Some c')"
  by (simp add: scheduleBuffer_def Let_def)

lemma scheduleBuffer_tail_inv:
  assumes "ctx e = Some c" "tail_inv e"
  shows "tail_inv (scheduleBuffer now b e)"
proof -
  let ?s = "\<lparr>src_buffer = b,
             startWhen = (if val (nextStartTime e) < val now then dadd now (dbl (5 / 100))
                                  else nextStartTime e),
             startCalledAt = now\<rparr>"
  have sch: "scheduled (scheduleBuffer now b e) = scheduled e @ [?s]"
    by (rule scheduled_scheduleBuffer [OF assms(1)])
  have nst: "nextStartTime (scheduleBuffer now b e) = dadd (startWhen ?s) (duration (src_buffer ?s))"
    using scheduleBuffer_fields [OF assms(1), of now b] by simp
  have step: "scheduled e = [] \<or> contiguous_step (last (scheduled e)) ?s"
  proof (cases "scheduled e = []")
    case False
    define a where "a = last (scheduled e)"
    have n: "nextStartTime e = dadd (startWhen a) (duration (src_buffer a))"
      using assms(2) False by (simp add: tail_inv_def a_def)
    have le: "val (startWhen a) \<le> val (nextStartTime e)"
      unfolding n by (rule dadd_ge [OF duration_nonneg])
    have "contiguous_step a ?s"
    proof (cases "val (nextStartTime e) < val now")
      case True
      have "val now \<le> val (dadd now (dbl (5 / 100)))" by (rule dadd_ge [OF anchor_delay_nonneg])
      then have "val (startWhen a) \<le> val (dadd now (dbl (5 / 100)))" using le True by simp
      then show ?thesis using True by (simp add: contiguous_step_def n [symmetric])
    next
      case False
      then show ?thesis using le by (simp add: contiguous_step_def n [symmetric])
    qed
    then show ?thesis by (simp add: a_def)
  qed simp
  show ?thesis
    unfolding tail_inv_def sch using assms(2) step nst
    by (simp add: contiguous_snoc tail_inv_def)
qed


lemma scheduleBuffer_appends:
  assumes "ctx e = Some c"
  shows "\<exists>s. scheduled (scheduleBuffer now b e) = scheduled e @ [s] \<and>
             src_buffer s = b \<and> startCalledAt s = now \<and> val now \<le> val (startWhen s)"
  using scheduled_scheduleBuffer [OF assms, of now b] dadd_ge [OF anchor_delay_nonneg, of now]
  by simp

lemma scheduleBuffer_no_ctx: "ctx e = None \<Longrightarrow> scheduleBuffer now b e = e"
  by (simp add: scheduleBuffer_def)

lemma fold_scheduleBuffer_fields:
  "ctx e = Some c \<Longrightarrow>
   started (fold (scheduleBuffer now) bs e) = started e \<and>
   bufferedChunks (fold (scheduleBuffer now) bs e) = bufferedChunks e \<and>
   destroyed (fold (scheduleBuffer now) bs e) = destroyed e \<and>
   (\<exists>c'. ctx (fold (scheduleBuffer now) bs e) = Some c')"
proof (induction bs arbitrary: e c)
  case Nil
  then show ?case by simp
next
  case (Cons b bs)
  from scheduleBuffer_fields [OF Cons.prems, of now b]
  obtain c' where c': "ctx (scheduleBuffer now b e) = Some c'" by blast
  from Cons.IH [OF c'] scheduleBuffer_fields [OF Cons.prems, of now b]
  show ?case by simp
qed

lemma fold_scheduleBuffer_tail_inv:
  "ctx e = Some c \<Longrightarrow> tail_inv e \<Longrightarrow> tail_inv (fold (scheduleBuffer now) bs e)"
proof (induction bs arbitrary: e c)
  case Nil
  then show ?case by simp
next
  case (Cons b bs)
  from scheduleBuffer_fields [OF Cons.prems(1), of now b]
  obtain c' where c': "ctx (scheduleBuffer now b e) = Some c'" by blast
  from Cons.IH [OF c' scheduleBuffer_tail_inv [OF Cons.prems]]
  show ?case by simp
qed

lemma fold_scheduleBuffer_appends:
  "ctx e = Some c \<Longrightarrow>
   \<exists>new. scheduled (fold (scheduleBuffer now) bs e) = scheduled e @ new \<and>
         map src_buffer new = bs \<and>
         (\<forall>s \<in> set new. startCalledAt s = now \<and> val now \<le> val (startWhen s))"
proof (induction bs arbitrary: e c)
  case Nil
  then show ?case by simp
next
  case (Cons b bs)
  from scheduleBuffer_fields [OF Cons.prems(1), of now b]
  obtain c' where c': "ctx (scheduleBuffer now b e) = Some c'" by blast
  from scheduleBuffer_appends [OF Cons.prems, of now b]
  obtain s where s: "scheduled (scheduleBuffer now b e) = scheduled e @ [s]"
    "src_buffer s = b" "startCalledAt s = now" "val now \<le> val (startWhen s)" by blast
  from Cons.IH [OF c']
  obtain new where new: "scheduled (fold (scheduleBuffer now) bs (scheduleBuffer now b e)) =
      scheduled (scheduleBuffer now b e) @ new" "map src_buffer new = bs"
      "\<forall>s \<in> set new. startCalledAt s = now \<and> val now \<le> val (startWhen s)" by blast
  have "scheduled (fold (scheduleBuffer now) (b # bs) e) = scheduled e @ (s # new)"
    using new(1) s(1) by simp
  moreover have "map src_buffer (s # new) = b # bs" using s(2) new(2) by simp
  moreover have "\<forall>x \<in> set (s # new). startCalledAt x = now \<and> val now \<le> val (startWhen x)"
    using s(3,4) new(3) by simp
  ultimately show ?case by (intro exI [of _ "s # new"] conjI)
qed

text \<open>startPlayback from a state with nothing scheduled.\<close>

lemma startPlayback_inv:
  assumes "ctx e = Some c" "scheduled e = []" "bufferedChunks e \<noteq> []"
  shows "schedule_inv (startPlayback now e)"
proof -
  define e1 where "e1 = e\<lparr>started := True, nextStartTime := dadd now (dbl (5 / 100))\<rparr>"
  obtain b bs where bs: "bufferedChunks e = b # bs"
    using assms(3) by (cases "bufferedChunks e") auto
  define e2 where "e2 = scheduleBuffer now b e1"
  define e3 where "e3 = fold (scheduleBuffer now) bs e2"
  have c1: "ctx e1 = Some c" by (simp add: e1_def assms)
  have sp: "startPlayback now e = e3\<lparr>bufferedChunks := []\<rparr>"
    using assms(1) bs by (simp add: startPlayback_def Let_def e1_def e2_def e3_def)
  have s2: "scheduled e2 = [\<lparr>src_buffer = b, startWhen = dadd now (dbl (5 / 100)), startCalledAt = now\<rparr>]"
    unfolding e2_def using scheduled_scheduleBuffer [OF c1, of now b] assms(2) anchor_not_before [of now]
    by (simp add: e1_def scheduled_def assms(1))
  from scheduleBuffer_fields [OF c1, of now b]
  obtain c2 where c2: "ctx e2 = Some c2" and st2: "started e2" 
    and n2: "nextStartTime e2 = dadd (dadd now (dbl (5 / 100))) (duration b)"
    using anchor_not_before [of now] by (auto simp: e2_def e1_def)
  have t2: "tail_inv e2" by (simp add: tail_inv_def s2 n2)
  have t3: "tail_inv e3" unfolding e3_def by (rule fold_scheduleBuffer_tail_inv [OF c2 t2])
  from fold_scheduleBuffer_fields [OF c2, of now bs]
  obtain c3 where c3: "ctx e3 = Some c3" and st3: "started e3"
    using st2 by (auto simp: e3_def)
  from fold_scheduleBuffer_appends [OF c2, of now bs]
  obtain new where new: "scheduled e3 = scheduled e2 @ new" by (auto simp: e3_def)
  have src3: "sources c3 = \<lparr>src_buffer = b, startWhen = dadd now (dbl (5 / 100)), startCalledAt = now\<rparr> # new"
    using new s2 c3 by (simp add: scheduled_def)
  show ?thesis
    unfolding sp schedule_inv_def using t3 c3 st3 src3
    by (simp add: tail_inv_def scheduled_def)
qed

lemma scheduleBuffer_inv:
  assumes "ctx e = Some c" "schedule_inv e" "started e"
  shows "schedule_inv (scheduleBuffer now b e)"
proof -
  have ne: "sources c \<noteq> []" using assms by (auto simp: schedule_inv_def split: if_splits)
  have t: "tail_inv e" using assms ne by (simp add: schedule_inv_def tail_inv_def scheduled_def)
  have t': "tail_inv (scheduleBuffer now b e)" by (rule scheduleBuffer_tail_inv [OF assms(1) t])
  from scheduleBuffer_fields [OF assms(1), of now b]
  obtain c' where c': "ctx (scheduleBuffer now b e) = Some c'"
    and st: "started (scheduleBuffer now b e)" using assms(3) by auto
  from scheduleBuffer_appends [OF assms(1), of now b]
  obtain s where s: "sources c' = sources c @ [s]" using c' assms(1) by (auto simp: scheduled_def)
  have hd: "hd (sources c') = hd (sources c)" using s ne by simp
  show ?thesis
    unfolding schedule_inv_def using t' c' st s ne hd assms(1,2)
    by (simp add: tail_inv_def scheduled_def schedule_inv_def)
qed

lemma schedule_inv_ctx_state:
  "ctx e = Some c \<Longrightarrow> schedule_inv (e\<lparr>ctx := Some (c\<lparr>ctx_state := st\<rparr>)\<rparr>) = schedule_inv e"
  by (simp add: schedule_inv_def)

lemma enqueue_inv:
  assumes "schedule_inv e"
  shows "schedule_inv (fst (enqueue now pcmData e))"
proof (cases "ctx e")
  case None
  then show ?thesis using assms by (simp add: enqueue_def)
next
  case (Some c)
  show ?thesis
  proof (cases "destroyed e")
    case True
    then show ?thesis using assms Some by (simp add: enqueue_def)
  next
    case False
    define e1 where "e1 = (if ctx_state c = Suspended then e\<lparr>ctx := Some (c\<lparr>ctx_state := Running\<rparr>)\<rparr> else e)"
    obtain c1 where c1: "ctx e1 = Some c1" and src1: "sources c1 = sources c"
      by (cases "ctx_state c = Suspended") (auto simp: e1_def Some)
    have i1: "schedule_inv e1"
      using assms schedule_inv_ctx_state [OF Some, of Running] by (simp add: e1_def)
    have st1: "started e1 = started e" "bufferedChunks e1 = bufferedChunks e" by (simp_all add: e1_def)
    show ?thesis
    proof (cases "pcmToAudioBuffer pcmData")
      case (Inl err)
      then show ?thesis using Some False i1 by (simp add: enqueue_def Let_def e1_def)
    next
      case (Inr audioBuffer)
      show ?thesis
      proof (cases "started e1")
        case True
        have "fst (enqueue now pcmData e) = scheduleBuffer now audioBuffer e1"
          using Some False Inr True by (simp add: enqueue_def Let_def e1_def)
        then show ?thesis using scheduleBuffer_inv [OF c1 i1 True] by simp
      next
        case ns: False
        define e2 where "e2 = e1\<lparr>bufferedChunks := bufferedChunks e1 @ [audioBuffer]\<rparr>"
        have c2: "ctx e2 = Some c1" by (simp add: e2_def c1)
        have empty: "sources c1 = []" using i1 c1 ns by (auto simp: schedule_inv_def split: if_splits)
        have i2: "schedule_inv e2" using i1 c1 by (simp add: e2_def schedule_inv_def)
        have r: "fst (enqueue now pcmData e) =
                 (if length (bufferedChunks e2) \<ge> CHUNKS_BEFORE_START then startPlayback now e2 else e2)"
          using Some False Inr ns by (simp add: enqueue_def Let_def e1_def e2_def)
        have se2: "scheduled e2 = []" by (simp add: scheduled_def c2 empty)
        have be2: "bufferedChunks e2 \<noteq> []" by (simp add: e2_def)
        have "schedule_inv (startPlayback now e2)"
          by (rule startPlayback_inv [OF c2 se2 be2])
        then show ?thesis using r i2 by simp
      qed
    qed
  qed
qed

lemma enqueue_all_inv:
  "schedule_inv e \<Longrightarrow> schedule_inv (enqueue_all evs e)"
proof (induction evs arbitrary: e)
  case Nil
  then show ?case by simp
next
  case (Cons ev evs)
  obtain now pcmData where ev: "ev = (now, pcmData)" by (cases ev)
  show ?case using Cons.IH [OF enqueue_inv [OF Cons.prems]] by (simp add: ev)
qed

lemma schedule_inv_init: "schedule_inv (init WebAudioPlaybackEngine_new)"
  by (simp add: schedule_inv_def init_def WebAudioPlaybackEngine_new_def AudioContext_new_def)

lemma schedule_inv_clear: "schedule_inv (clear e)"
  by (cases "ctx e") (simp_all add: schedule_inv_def clear_def Let_def AudioContext_new_def AudioContext_close_def)


lemma enqueue_appends:
  "\<exists>new. scheduled (fst (enqueue now pcmData e)) = scheduled e @ new \<and>
         (\<forall>s \<in> set new. startCalledAt s = now \<and> val now \<le> val (startWhen s))"
proof (cases "ctx e")
  case None
  then show ?thesis by (simp add: enqueue_def)
next
  case (Some c)
  show ?thesis
  proof (cases "destroyed e")
    case True
    then show ?thesis using Some by (simp add: enqueue_def)
  next
    case False
    define e1 where "e1 = (if ctx_state c = Suspended then e\<lparr>ctx := Some (c\<lparr>ctx_state := Running\<rparr>)\<rparr> else e)"
    obtain c1 where c1: "ctx e1 = Some c1" and src1: "sources c1 = sources c"
      by (cases "ctx_state c = Suspended") (auto simp: e1_def Some)
    have s1: "scheduled e1 = scheduled e" using c1 src1 Some by (simp add: scheduled_def)
    show ?thesis
    proof (cases "pcmToAudioBuffer pcmData")
      case (Inl err)
      then show ?thesis using Some False s1 by (simp add: enqueue_def Let_def e1_def [symmetric])
    next
      case (Inr audioBuffer)
      show ?thesis
      proof (cases "started e1")
        case True
        have r: "fst (enqueue now pcmData e) = scheduleBuffer now audioBuffer e1"
          using Some False Inr True by (simp add: enqueue_def Let_def e1_def)
        from scheduleBuffer_appends [OF c1, of now audioBuffer]
        obtain s where "scheduled (scheduleBuffer now audioBuffer e1) = scheduled e1 @ [s]"
          "startCalledAt s = now" "val now \<le> val (startWhen s)" by blast
        then show ?thesis unfolding r s1 by (intro exI [of _ "[s]"]) simp
      next
        case ns: False
        define e2 where "e2 = e1\<lparr>bufferedChunks := bufferedChunks e1 @ [audioBuffer]\<rparr>"
        have c2: "ctx e2 = Some c1" by (simp add: e2_def c1)
        have s2: "scheduled e2 = scheduled e" using s1 by (simp add: e2_def scheduled_def)
        have r: "fst (enqueue now pcmData e) =
                 (if length (bufferedChunks e2) \<ge> CHUNKS_BEFORE_START then startPlayback now e2 else e2)"
          using Some False Inr ns by (simp add: enqueue_def Let_def e1_def e2_def)
        define e3 where "e3 = e2\<lparr>started := True, nextStartTime := dadd now (dbl (5 / 100))\<rparr>"
        have c3: "ctx e3 = Some c1" by (simp add: e3_def c2)
        have s3: "scheduled e3 = scheduled e" using s2 by (simp add: e3_def scheduled_def)
        from fold_scheduleBuffer_appends [OF c3, of now "bufferedChunks e3"]
        obtain new where new: "scheduled (fold (scheduleBuffer now) (bufferedChunks e3) e3) = scheduled e3 @ new"
          "\<forall>s \<in> set new. startCalledAt s = now \<and> val now \<le> val (startWhen s)" by blast
        have "scheduled (startPlayback now e2) = scheduled e @ new"
          using new(1) c2 s3 by (simp add: startPlayback_def Let_def e3_def scheduled_def)
        then show ?thesis
          unfolding r using new(2) s2
          by (cases "length (bufferedChunks e2) \<ge> CHUNKS_BEFORE_START") auto
      qed
    qed
  qed
qed

lemma enqueue_underflow:
  assumes "started e" "\<not> destroyed e" "ctx e = Some c" "pcmToAudioBuffer pcmData = Inr b"
    "val (nextStartTime e) < val now"
  shows "scheduled (fst (enqueue now pcmData e)) =
         scheduled e @ [\<lparr>src_buffer = b, startWhen = dadd now (dbl (5 / 100)), startCalledAt = now\<rparr>]"
  using assms
  by (cases "ctx_state c = Suspended")
     (simp_all add: enqueue_def Let_def scheduleBuffer_def scheduled_def)

lemma enqueue_all_not_in_past:
  "\<forall>s \<in> set (scheduled e). val (startCalledAt s) \<le> val (startWhen s) \<Longrightarrow>
   \<forall>s \<in> set (scheduled (enqueue_all evs e)). val (startCalledAt s) \<le> val (startWhen s)"
proof (induction evs arbitrary: e)
  case Nil
  then show ?case by simp
next
  case (Cons ev evs)
  obtain now pcmData where ev: "ev = (now, pcmData)" by (cases ev)
  from enqueue_appends [of now pcmData e]
  obtain new where "scheduled (fst (enqueue now pcmData e)) = scheduled e @ new"
    "\<forall>s \<in> set new. startCalledAt s = now \<and> val now \<le> val (startWhen s)" by blast
  then have "\<forall>s \<in> set (scheduled (fst (enqueue now pcmData e))). val (startCalledAt s) \<le> val (startWhen s)"
    using Cons.prems by auto
  from Cons.IH [OF this] show ?case by (simp add: ev)
qed

text \<open>
  Claim C1. Every source that a call of \<open>enqueue\<close> schedules is started at a time that is
  not before the clock value of that call. When the engine is playing and its next start
  time is already earlier than the clock (underflow), the chunk is scheduled at the clock
  value plus 50 ms. Hence in any run of \<open>enqueue\<close> calls from an initialised engine no source
  is scheduled to start in the past.
\<close>

theorem enqueue_never_schedules_in_the_past:
  "(\<exists>new. scheduled (fst (enqueue now pcmData e)) = scheduled e @ new \<and>
          (\<forall>s \<in> set new. startCalledAt s = now \<and> val now \<le> val (startWhen s))) \<and>
   (started e \<and> \<not> destroyed e \<and> ctx e = Some c \<and> pcmToAudioBuffer pcmData = Inr b \<and>
    val (nextStartTime e) < val now \<longrightarrow>
      scheduled (fst (enqueue now pcmData e)) =
        scheduled e @
          [\<lparr>src_buffer = b, startWhen = dadd now (dbl (5 / 100)), startCalledAt = now\<rparr>]) \<and>
   (\<forall>s \<in> set (scheduled (enqueue_all evs (init WebAudioPlaybackEngine_new))).
      val (startCalledAt s) \<le> val (startWhen s))"
proof (intro conjI impI)
  show "\<exists>new. scheduled (fst (enqueue now pcmData e)) = scheduled e @ new \<and>
          (\<forall>s \<in> set new. startCalledAt s = now \<and> val now \<le> val (startWhen s))"
    by (rule enqueue_appends)
next
  assume "started e \<and> \<not> destroyed e \<and> ctx e = Some c \<and> pcmToAudioBuffer pcmData = Inr b \<and>
    val (nextStartTime e) < val now"
  then show "scheduled (fst (enqueue now pcmData e)) =
        scheduled e @
          [\<lparr>src_buffer = b, startWhen = dadd now (dbl (5 / 100)), startCalledAt = now\<rparr>]"
    using enqueue_underflow by blast
next
  have "\<forall>s \<in> set (scheduled (init WebAudioPlaybackEngine_new)). val (startCalledAt s) \<le> val (startWhen s)"
    by (simp add: scheduled_def init_def AudioContext_new_def)
  then show "\<forall>s \<in> set (scheduled (enqueue_all evs (init WebAudioPlaybackEngine_new))).
      val (startCalledAt s) \<le> val (startWhen s)"
    by (rule enqueue_all_not_in_past)
qed

text \<open>
  Claim C4. For every sequence of \<open>enqueue\<close> calls without an intervening \<open>clear\<close>
  (starting from a freshly initialised engine, or right after a \<open>clear\<close>), the start times
  of the scheduled sources are non-decreasing and contiguous: each source starts where the
  previous one ends, at the sum of the previous start and duration as the program computes
  it, except for the first source after pre-roll, which starts at the clock value plus
  50 ms, and a source scheduled after an underflow re-anchor, which starts at the clock
  value of its scheduling plus 50 ms. A re-anchor happens exactly when the previous end is
  before that clock value; a source that continues the previous one does not start before
  the clock value of its scheduling.
\<close>

theorem enqueue_sequence_start_times_contiguous:
  assumes "e0 = init WebAudioPlaybackEngine_new \<or> e0 = clear e"
    and "srcs = scheduled (enqueue_all evs e0)"
  shows "(srcs \<noteq> [] \<longrightarrow> startWhen (hd srcs) = dadd (startCalledAt (hd srcs)) (dbl (5 / 100))) \<and>
         (\<forall>i. Suc i < length srcs \<longrightarrow>
            val (startWhen (srcs ! i)) \<le> val (startWhen (srcs ! Suc i)) \<and>
            (startWhen (srcs ! Suc i) = dadd (startWhen (srcs ! i)) (duration (src_buffer (srcs ! i))) \<and>
             val (startCalledAt (srcs ! Suc i)) \<le> val (startWhen (srcs ! Suc i)) \<or>
             startWhen (srcs ! Suc i) = dadd (startCalledAt (srcs ! Suc i)) (dbl (5 / 100)) \<and>
             val (dadd (startWhen (srcs ! i)) (duration (src_buffer (srcs ! i)))) <
               val (startCalledAt (srcs ! Suc i))))"
proof -
  have "schedule_inv e0" using assms(1) schedule_inv_init schedule_inv_clear by auto
  then have inv: "schedule_inv (enqueue_all evs e0)" by (rule enqueue_all_inv)
  have c: "contiguous srcs"
    using inv unfolding assms(2) schedule_inv_def scheduled_def
    by (cases "ctx (enqueue_all evs e0)") simp_all
  have h: "srcs \<noteq> [] \<longrightarrow> startWhen (hd srcs) = dadd (startCalledAt (hd srcs)) (dbl (5 / 100))"
    using inv unfolding assms(2) schedule_inv_def scheduled_def
    by (cases "ctx (enqueue_all evs e0)") (auto split: if_splits)
  have "\<forall>i. Suc i < length srcs \<longrightarrow> contiguous_step (srcs ! i) (srcs ! Suc i)"
    using contiguous_nth [OF c] by blast
  then show ?thesis using h unfolding contiguous_step_def by blast
qed

lemmas engine_defs =
  enqueue_def startPlayback_def scheduleBuffer_def pcmToAudioBuffer_def init_def
  WebAudioPlaybackEngine_new_def AudioContext_new_def CHUNKS_BEFORE_START_def scheduled_def
  duration_def SAMPLE_RATE_def Let_def clear_def AudioContext_close_def isActive_def

lemma playing_engine_value:
  "playing_engine =
     \<lparr>ctx = Some \<lparr>ctx_state = Running,
        sources =
          [\<lparr>src_buffer = [1 / 32768], startWhen = dadd (dbl 0) (dbl (5 / 100)),
             startCalledAt = dbl 0\<rparr>,
           \<lparr>src_buffer = [2 / 32768],
             startWhen = dadd (dadd (dbl 0) (dbl (5 / 100))) (dbl (1 / 24000)),
             startCalledAt = dbl 0\<rparr>,
           \<lparr>src_buffer = [3 / 32768],
             startWhen = dadd (dadd (dadd (dbl 0) (dbl (5 / 100))) (dbl (1 / 24000))) (dbl (1 / 24000)),
             startCalledAt = dbl 0\<rparr>]\<rparr>,
      nextStartTime =
        dadd (dadd (dadd (dadd (dbl 0) (dbl (5 / 100))) (dbl (1 / 24000))) (dbl (1 / 24000)))
          (dbl (1 / 24000)),
      started = True, bufferedChunks = [],
      drainedCallback = False, pendingSources = 3, destroyed = False\<rparr>"
  by (simp add: playing_engine_def engine_defs double_order)

text \<open>The playing engine's schedule ends before the clock value 1.\<close>

lemma playing_engine_next: "val (nextStartTime playing_engine) < val (dbl 1)"
proof -
  have e16: "fl64 (1 / 16) = 1 / 16"
    by (rule fl64_exact [where e = 56 and m = "2 ^ 52"]) simp_all
  have e8: "fl64 (1 / 8) = 1 / 8"
    by (rule fl64_exact [where e = 55 and m = "2 ^ 52"]) simp_all
  have e316: "fl64 (3 / 16) = 3 / 16"
    by (rule fl64_exact [where e = 55 and m = "3 * 2 ^ 51"]) simp_all
  have e4: "fl64 (1 / 4) = 1 / 4"
    by (rule fl64_exact [where e = 54 and m = "2 ^ 52"]) simp_all
  have z: "val (dbl 0) \<le> 0" by (simp add: val_dbl)
  have c: "val (dbl (5 / 100)) \<le> 1 / 16" using val_dbl_le [of "5 / 100" "1 / 16"] by (simp add: e16)
  have d: "val (dbl (1 / 24000)) \<le> 1 / 16" using val_dbl_le [of "1 / 24000" "1 / 16"] by (simp add: e16)
  have 1: "val (dadd (dbl 0) (dbl (5 / 100))) \<le> 1 / 16"
    using val_dadd_le [OF z c] by (simp add: e16)
  have 2: "val (dadd (dadd (dbl 0) (dbl (5 / 100))) (dbl (1 / 24000))) \<le> 1 / 8"
    using val_dadd_le [OF 1 d] by (simp add: e8)
  have 3: "val (dadd (dadd (dadd (dbl 0) (dbl (5 / 100))) (dbl (1 / 24000))) (dbl (1 / 24000))) \<le> 3 / 16"
    using val_dadd_le [OF 2 d] by (simp add: e316)
  have 4: "val (dadd (dadd (dadd (dadd (dbl 0) (dbl (5 / 100))) (dbl (1 / 24000))) (dbl (1 / 24000)))
                  (dbl (1 / 24000))) \<le> 1 / 4"
    using val_dadd_le [OF 3 d] by (simp add: e4)
  show ?thesis unfolding playing_engine_value val_dbl_one using 4 by simp
qed

theorem enqueue_never_schedules_in_the_past_witness:
  "started playing_engine \<and> \<not> destroyed playing_engine \<and>
   pcmToAudioBuffer [4, 0] = Inr [4 / 32768] \<and> val (nextStartTime playing_engine) < val (dbl 1) \<and>
   scheduled (fst (enqueue (dbl 1) [4, 0] playing_engine)) =
     scheduled playing_engine @
       [\<lparr>src_buffer = [4 / 32768], startWhen = dadd (dbl 1) (dbl (5 / 100)), startCalledAt = dbl 1\<rparr>] \<and>
   val (dbl 1) \<le> val (startWhen (last (scheduled (fst (enqueue (dbl 1) [4, 0] playing_engine)))))"
proof -
  have p: "pcmToAudioBuffer [4, 0] = Inr [4 / 32768]" by (simp add: pcmToAudioBuffer_def)
  have sd: "started playing_engine" "\<not> destroyed playing_engine"
    "ctx playing_engine = Some (the (ctx playing_engine))"
    by (simp_all add: playing_engine_value)
  have h: "started playing_engine \<and> \<not> destroyed playing_engine \<and>
      ctx playing_engine = Some (the (ctx playing_engine)) \<and>
      pcmToAudioBuffer [4, 0] = Inr [4 / 32768] \<and> val (nextStartTime playing_engine) < val (dbl 1)"
    using p sd playing_engine_next by simp
  note spec = enqueue_never_schedules_in_the_past
    [of "dbl 1" "[4, 0]" playing_engine "the (ctx playing_engine)" "[4 / 32768]" "[]"]
  from spec h have r: "scheduled (fst (enqueue (dbl 1) [4, 0] playing_engine)) =
     scheduled playing_engine @
       [\<lparr>src_buffer = [4 / 32768], startWhen = dadd (dbl 1) (dbl (5 / 100)), startCalledAt = dbl 1\<rparr>]"
    by blast
  from spec obtain new where
    n: "scheduled (fst (enqueue (dbl 1) [4, 0] playing_engine)) = scheduled playing_engine @ new"
      "\<forall>s \<in> set new. startCalledAt s = dbl 1 \<and> val (dbl 1) \<le> val (startWhen s)"
    by blast
  from n(1) r have "new = [\<lparr>src_buffer = [4 / 32768], startWhen = dadd (dbl 1) (dbl (5 / 100)),
      startCalledAt = dbl 1\<rparr>]" by simp
  with n(2) have "val (dbl 1) \<le> val (dadd (dbl 1) (dbl (5 / 100)))" by simp
  then show ?thesis using h r by simp
qed

lemma playing_engine_then_late_chunk:
  "scheduled (enqueue_all [(dbl 1, [4, 0])] playing_engine) =
     scheduled playing_engine @
       [\<lparr>src_buffer = [4 / 32768], startWhen = dadd (dbl 1) (dbl (5 / 100)), startCalledAt = dbl 1\<rparr>]"
proof -
  have p: "pcmToAudioBuffer [4, 0] = Inr [4 / 32768]" by (simp add: pcmToAudioBuffer_def)
  have sd: "started playing_engine" "\<not> destroyed playing_engine"
    "ctx playing_engine = Some (the (ctx playing_engine))"
    by (simp_all add: playing_engine_value)
  show ?thesis
    using enqueue_underflow [OF sd p playing_engine_next] by simp
qed

theorem enqueue_sequence_start_times_contiguous_witness:
  "scheduled (enqueue_all [(dbl 1, [4, 0])] playing_engine) \<noteq> [] \<and>
   startWhen (hd (scheduled (enqueue_all [(dbl 1, [4, 0])] playing_engine))) =
     dadd (dbl 0) (dbl (5 / 100)) \<and>
   val (startWhen (scheduled (enqueue_all [(dbl 1, [4, 0])] playing_engine) ! 0)) \<le>
     val (startWhen (scheduled (enqueue_all [(dbl 1, [4, 0])] playing_engine) ! 1)) \<and>
   startWhen (scheduled (enqueue_all [(dbl 1, [4, 0])] playing_engine) ! 1) =
     dadd (dadd (dbl 0) (dbl (5 / 100))) (dbl (1 / 24000)) \<and>
   val (startWhen (scheduled (enqueue_all [(dbl 1, [4, 0])] playing_engine) ! 2)) \<le>
     val (startWhen (scheduled (enqueue_all [(dbl 1, [4, 0])] playing_engine) ! 3)) \<and>
   startWhen (scheduled (enqueue_all [(dbl 1, [4, 0])] playing_engine) ! 3) =
     dadd (dbl 1) (dbl (5 / 100))"
proof -
  have ev: "enqueue_all [(dbl 1, [4, 0])] playing_engine =
     enqueue_all [(dbl 0, [1, 0]), (dbl 0, [2, 0]), (dbl 0, [3, 0]), (dbl 1, [4, 0])]
       (init WebAudioPlaybackEngine_new)"
    by (simp add: playing_engine_def)
  have v: "scheduled (enqueue_all [(dbl 1, [4, 0])] playing_engine) =
          [\<lparr>src_buffer = [1 / 32768], startWhen = dadd (dbl 0) (dbl (5 / 100)),
             startCalledAt = dbl 0\<rparr>,
           \<lparr>src_buffer = [2 / 32768],
             startWhen = dadd (dadd (dbl 0) (dbl (5 / 100))) (dbl (1 / 24000)),
             startCalledAt = dbl 0\<rparr>,
           \<lparr>src_buffer = [3 / 32768],
             startWhen = dadd (dadd (dadd (dbl 0) (dbl (5 / 100))) (dbl (1 / 24000))) (dbl (1 / 24000)),
             startCalledAt = dbl 0\<rparr>,
           \<lparr>src_buffer = [4 / 32768], startWhen = dadd (dbl 1) (dbl (5 / 100)),
             startCalledAt = dbl 1\<rparr>]"
    unfolding playing_engine_then_late_chunk by (simp add: playing_engine_value scheduled_def)
  note spec = enqueue_sequence_start_times_contiguous
    [OF disjI1 [OF refl] refl,
     of "[(dbl 0, [1, 0]), (dbl 0, [2, 0]), (dbl 0, [3, 0]), (dbl 1, [4, 0])]",
     folded ev, unfolded v]
  from spec have h: "startWhen (hd [\<lparr>src_buffer = [1 / 32768], startWhen = dadd (dbl 0) (dbl (5 / 100)),
             startCalledAt = dbl 0\<rparr>]) = dadd (dbl 0) (dbl (5 / 100))" by simp
  from spec [THEN conjunct2, rule_format, of 0]
  have s0: "val (dadd (dbl 0) (dbl (5 / 100))) \<le>
            val (dadd (dadd (dbl 0) (dbl (5 / 100))) (dbl (1 / 24000)))" by simp
  from spec [THEN conjunct2, rule_format, of 2]
  have s2: "val (dadd (dadd (dadd (dbl 0) (dbl (5 / 100))) (dbl (1 / 24000))) (dbl (1 / 24000))) \<le>
            val (dadd (dbl 1) (dbl (5 / 100)))" by simp
  show ?thesis unfolding v using s0 s2 by simp
qed

text \<open>The end of the playing engine's schedule, as the program computes it.\<close>

lemma playing_engine_end_value:
  "val (nextStartTime playing_engine) = 7223773802302277 / 2 ^ 57 \<and>
   5 / 100 + 3 / 24000 < val (nextStartTime playing_engine)"
proof -
  define c0 :: real where "c0 = 7205759403792794 / 2 ^ 57"
  define d0 :: real where "d0 = 6148914691236517 / 2 ^ 67"
  define a2 :: real where "a2 = 7211764203295955 / 2 ^ 57"
  define a3 :: real where "a3 = 7217769002799116 / 2 ^ 57"
  define a4 :: real where "a4 = 7223773802302277 / 2 ^ 57"
  have "fl64 (1 / 20) = of_int 7205759403792794 / 2 ^ 57"
    by (rule fl64_normal_eqI) simp_all
  then have c: "fl64 (1 / 20) = c0" by (simp add: c0_def)
  have "fl64 (1 / 24000) = of_int 6148914691236517 / 2 ^ 67"
    by (rule fl64_normal_eqI) simp_all
  then have d: "fl64 (1 / 24000) = d0" by (simp add: d0_def)
  have "fl64 (7205759403792794 / 2 ^ 57) = of_int 7205759403792794 / 2 ^ 57"
    by (rule fl64_normal_eqI) simp_all
  then have a1: "fl64 c0 = c0" by (simp add: c0_def)
  have "fl64 (7205759403792794 / 2 ^ 57 + 6148914691236517 / 2 ^ 67) = of_int 7211764203295955 / 2 ^ 57"
    by (rule fl64_normal_eqI) simp_all
  then have 2: "fl64 (c0 + d0) = a2" by (simp add: c0_def d0_def a2_def)
  have "fl64 (7211764203295955 / 2 ^ 57 + 6148914691236517 / 2 ^ 67) = of_int 7217769002799116 / 2 ^ 57"
    by (rule fl64_normal_eqI) simp_all
  then have 3: "fl64 (a2 + d0) = a3" by (simp add: a2_def d0_def a3_def)
  have "fl64 (7217769002799116 / 2 ^ 57 + 6148914691236517 / 2 ^ 67) = of_int 7223773802302277 / 2 ^ 57"
    by (rule fl64_normal_eqI) simp_all
  then have 4: "fl64 (a3 + d0) = a4" by (simp add: a3_def d0_def a4_def)
  have "val (nextStartTime playing_engine) = a4"
    by (simp add: playing_engine_value val_dadd val_dbl c d a1 2 3 4)
  then show ?thesis by (simp add: a4_def)
qed

text \<open>
  A chunk that arrives when the clock is at the end of the schedule continues it. The end
  as computed is above the exact sum \<open>0.05 + 3/24000\<close>, so exact arithmetic would
  see an underflow here.
\<close>

lemma chunk_at_schedule_end_continues:
  "scheduled (fst (enqueue (nextStartTime playing_engine) [4, 0] playing_engine)) =
     scheduled playing_engine @
       [\<lparr>src_buffer = [4 / 32768], startWhen = nextStartTime playing_engine,
          startCalledAt = nextStartTime playing_engine\<rparr>]"
  by (simp add: playing_engine_value) (simp add: engine_defs)

lemma scheduleBuffer_destroyed: "destroyed (scheduleBuffer now b e) = destroyed e"
  by (cases "ctx e") (simp_all add: scheduleBuffer_def Let_def)

lemma fold_scheduleBuffer_destroyed: "destroyed (fold (scheduleBuffer now) bs e) = destroyed e"
  by (induction bs arbitrary: e) (simp_all add: scheduleBuffer_destroyed)

lemma startPlayback_destroyed: "destroyed (startPlayback now e) = destroyed e"
  by (cases "ctx e") (simp_all add: startPlayback_def Let_def fold_scheduleBuffer_destroyed)

lemma enqueue_destroyed: "destroyed (fst (enqueue now pcmData e)) = destroyed e"
  by (cases "ctx e")
     (simp_all add: enqueue_def Let_def scheduleBuffer_destroyed startPlayback_destroyed
        split: sum.splits)

lemma enqueue_all_destroyed: "destroyed (enqueue_all evs e) = destroyed e"
proof (induction evs arbitrary: e)
  case Nil
  then show ?case by simp
next
  case (Cons ev evs)
  then show ?case by (cases ev) (simp add: enqueue_destroyed)
qed

lemma clear_fields:
  "\<not> isActive (clear e) \<and> pendingSources (clear e) = 0 \<and> bufferedChunks (clear e) = [] \<and>
   nextStartTime (clear e) = dbl 0 \<and> \<not> started (clear e) \<and> scheduled (clear e) = [] \<and>
   destroyed (clear e) = destroyed e \<and>
   (if destroyed e then True else ctx (clear e) = Some AudioContext_new)"
  by (cases "ctx e") (simp_all add: clear_def Let_def isActive_def scheduled_def AudioContext_new_def AudioContext_close_def)

lemma preroll_after_reset:
  assumes c: "ctx x = Some AudioContext_new" "\<not> destroyed x" "\<not> started x" "bufferedChunks x = []"
    and p: "pcmToAudioBuffer p1 = Inr b1" "pcmToAudioBuffer p2 = Inr b2" "pcmToAudioBuffer p3 = Inr b3"
  shows "bufferedChunks (fst (enqueue t1 p1 x)) = [b1] \<and> scheduled (fst (enqueue t1 p1 x)) = [] \<and>
         \<not> isActive (fst (enqueue t1 p1 x)) \<and>
         bufferedChunks (enqueue_all [(t1, p1), (t2, p2)] x) = [b1, b2] \<and>
         scheduled (enqueue_all [(t1, p1), (t2, p2)] x) = [] \<and>
         \<not> isActive (enqueue_all [(t1, p1), (t2, p2)] x) \<and>
         bufferedChunks (enqueue_all [(t1, p1), (t2, p2), (t3, p3)] x) = [] \<and>
         started (enqueue_all [(t1, p1), (t2, p2), (t3, p3)] x) \<and>
         scheduled (enqueue_all [(t1, p1), (t2, p2), (t3, p3)] x) =
           [\<lparr>src_buffer = b1, startWhen = dadd t3 (dbl (5 / 100)), startCalledAt = t3\<rparr>,
            \<lparr>src_buffer = b2, startWhen = dadd (dadd t3 (dbl (5 / 100))) (duration b1), startCalledAt = t3\<rparr>,
            \<lparr>src_buffer = b3, startWhen = dadd (dadd (dadd t3 (dbl (5 / 100))) (duration b1)) (duration b2), startCalledAt = t3\<rparr>]"
proof -
  define x1 where "x1 = fst (enqueue t1 p1 x)"
  define x2 where "x2 = fst (enqueue t2 p2 x1)"
  define x3 where "x3 = fst (enqueue t3 p3 x2)"
  have x1: "x1 = x\<lparr>ctx := Some (AudioContext_new\<lparr>ctx_state := Running\<rparr>), bufferedChunks := [b1]\<rparr>"
    using c p(1) by (simp add: x1_def enqueue_def Let_def AudioContext_new_def CHUNKS_BEFORE_START_def)
  have x2: "x2 = x\<lparr>ctx := Some (AudioContext_new\<lparr>ctx_state := Running\<rparr>), bufferedChunks := [b1, b2]\<rparr>"
    using c p(2) by (simp add: x2_def x1 enqueue_def Let_def AudioContext_new_def CHUNKS_BEFORE_START_def)
  have d0: "val t3 \<le> val (dadd t3 (dbl (5 / 100)))" by (rule dadd_ge [OF anchor_delay_nonneg])
  have d1: "val (dadd t3 (dbl (5 / 100))) \<le> val (dadd (dadd t3 (dbl (5 / 100))) (duration b1))"
    by (rule dadd_ge [OF duration_nonneg])
  have d2: "val (dadd (dadd t3 (dbl (5 / 100))) (duration b1)) \<le>
            val (dadd (dadd (dadd t3 (dbl (5 / 100))) (duration b1)) (duration b2))"
    by (rule dadd_ge [OF duration_nonneg])
  have d: "\<not> val (dadd t3 (dbl (5 / 100))) < val t3"
    "\<not> val (dadd (dadd t3 (dbl (5 / 100))) (duration b1)) < val t3"
    "\<not> val (dadd (dadd (dadd t3 (dbl (5 / 100))) (duration b1)) (duration b2)) < val t3"
    using d0 d1 d2 by simp_all
  have x3: "bufferedChunks x3 = [] \<and> started x3 \<and> scheduled x3 =
           [\<lparr>src_buffer = b1, startWhen = dadd t3 (dbl (5 / 100)), startCalledAt = t3\<rparr>,
            \<lparr>src_buffer = b2, startWhen = dadd (dadd t3 (dbl (5 / 100))) (duration b1), startCalledAt = t3\<rparr>,
            \<lparr>src_buffer = b3, startWhen = dadd (dadd (dadd t3 (dbl (5 / 100))) (duration b1)) (duration b2), startCalledAt = t3\<rparr>]"
    using c p(3) d
    by (simp add: x3_def x2 enqueue_def Let_def AudioContext_new_def CHUNKS_BEFORE_START_def
        startPlayback_def scheduleBuffer_def scheduled_def)
  show ?thesis
    using x1 x2 x3 c unfolding x3_def x2_def x1_def
    by (simp add: scheduled_def isActive_def AudioContext_new_def)
qed

text \<open>
  Claim C5, as amended. After any sequence of \<open>enqueue\<close> calls (three or more in particular)
  followed by \<open>clear\<close>, \<open>isActive\<close> is false, and the pending count, the pre-roll queue, the
  scheduling anchor and the started flag have their initial values, with nothing scheduled.
  Unless the engine was destroyed, the following \<open>enqueue\<close> calls re-enter pre-roll: the
  first two chunks are held in the local queue and not scheduled; the third completes the
  pre-roll and all three are scheduled back to back from the clock value plus 50 ms.
\<close>

theorem clear_resets_and_reenters_preroll:
  assumes "c = clear (enqueue_all evs e0)"
  shows "\<not> isActive c \<and>
         pendingSources c = pendingSources WebAudioPlaybackEngine_new \<and>
         bufferedChunks c = bufferedChunks WebAudioPlaybackEngine_new \<and>
         nextStartTime c = nextStartTime WebAudioPlaybackEngine_new \<and>
         started c = started WebAudioPlaybackEngine_new \<and>
         scheduled c = [] \<and>
         (\<not> destroyed e0 \<and> pcmToAudioBuffer p1 = Inr b1 \<and> pcmToAudioBuffer p2 = Inr b2 \<and>
          pcmToAudioBuffer p3 = Inr b3 \<longrightarrow>
            bufferedChunks (fst (enqueue t1 p1 c)) = [b1] \<and>
            scheduled (fst (enqueue t1 p1 c)) = [] \<and>
            \<not> isActive (fst (enqueue t1 p1 c)) \<and>
            bufferedChunks (enqueue_all [(t1, p1), (t2, p2)] c) = [b1, b2] \<and>
            scheduled (enqueue_all [(t1, p1), (t2, p2)] c) = [] \<and>
            \<not> isActive (enqueue_all [(t1, p1), (t2, p2)] c) \<and>
            bufferedChunks (enqueue_all [(t1, p1), (t2, p2), (t3, p3)] c) = [] \<and>
            started (enqueue_all [(t1, p1), (t2, p2), (t3, p3)] c) \<and>
            scheduled (enqueue_all [(t1, p1), (t2, p2), (t3, p3)] c) =
              [\<lparr>src_buffer = b1, startWhen = dadd t3 (dbl (5 / 100)), startCalledAt = t3\<rparr>,
               \<lparr>src_buffer = b2, startWhen = dadd (dadd t3 (dbl (5 / 100))) (duration b1), startCalledAt = t3\<rparr>,
               \<lparr>src_buffer = b3, startWhen = dadd (dadd (dadd t3 (dbl (5 / 100))) (duration b1)) (duration b2),
                 startCalledAt = t3\<rparr>])"
proof -
  note f = clear_fields [of "enqueue_all evs e0", folded assms]
  have reset: "\<not> isActive c \<and>
         pendingSources c = pendingSources WebAudioPlaybackEngine_new \<and>
         bufferedChunks c = bufferedChunks WebAudioPlaybackEngine_new \<and>
         nextStartTime c = nextStartTime WebAudioPlaybackEngine_new \<and>
         started c = started WebAudioPlaybackEngine_new \<and>
         scheduled c = []"
    using f by (simp add: WebAudioPlaybackEngine_new_def)
  have pre: "bufferedChunks (fst (enqueue t1 p1 c)) = [b1] \<and>
            scheduled (fst (enqueue t1 p1 c)) = [] \<and>
            \<not> isActive (fst (enqueue t1 p1 c)) \<and>
            bufferedChunks (enqueue_all [(t1, p1), (t2, p2)] c) = [b1, b2] \<and>
            scheduled (enqueue_all [(t1, p1), (t2, p2)] c) = [] \<and>
            \<not> isActive (enqueue_all [(t1, p1), (t2, p2)] c) \<and>
            bufferedChunks (enqueue_all [(t1, p1), (t2, p2), (t3, p3)] c) = [] \<and>
            started (enqueue_all [(t1, p1), (t2, p2), (t3, p3)] c) \<and>
            scheduled (enqueue_all [(t1, p1), (t2, p2), (t3, p3)] c) =
              [\<lparr>src_buffer = b1, startWhen = dadd t3 (dbl (5 / 100)), startCalledAt = t3\<rparr>,
               \<lparr>src_buffer = b2, startWhen = dadd (dadd t3 (dbl (5 / 100))) (duration b1), startCalledAt = t3\<rparr>,
               \<lparr>src_buffer = b3, startWhen = dadd (dadd (dadd t3 (dbl (5 / 100))) (duration b1)) (duration b2),
                 startCalledAt = t3\<rparr>]"
    if h: "\<not> destroyed e0 \<and> pcmToAudioBuffer p1 = Inr b1 \<and> pcmToAudioBuffer p2 = Inr b2 \<and>
          pcmToAudioBuffer p3 = Inr b3"
  proof -
    have nd: "\<not> destroyed (enqueue_all evs e0)" using h by (simp add: enqueue_all_destroyed)
    have "ctx c = Some AudioContext_new" "\<not> destroyed c" "\<not> started c" "bufferedChunks c = []"
      using f nd by simp_all
    from preroll_after_reset [OF this] h show ?thesis by blast
  qed
  show ?thesis using reset pre by blast
qed

theorem clear_resets_and_reenters_preroll_witness:
  "\<not> isActive (clear playing_engine) \<and> nextStartTime (clear playing_engine) = dbl 0 \<and>
   pendingSources (clear playing_engine) = 0 \<and>
   bufferedChunks (enqueue_all [(dbl 7, [1, 0]), (dbl 8, [2, 0])] (clear playing_engine)) =
     [[1 / 32768], [2 / 32768]] \<and>
   scheduled (enqueue_all [(dbl 7, [1, 0]), (dbl 8, [2, 0])] (clear playing_engine)) = [] \<and>
   map startWhen
     (scheduled (enqueue_all [(dbl 7, [1, 0]), (dbl 8, [2, 0]), (dbl 9, [3, 0])] (clear playing_engine))) =
     [dadd (dbl 9) (dbl (5 / 100)),
      dadd (dadd (dbl 9) (dbl (5 / 100))) (dbl (1 / 24000)),
      dadd (dadd (dadd (dbl 9) (dbl (5 / 100))) (dbl (1 / 24000))) (dbl (1 / 24000))]"
proof -
  have p: "pcmToAudioBuffer [1, 0] = Inr [1 / 32768]" "pcmToAudioBuffer [2, 0] = Inr [2 / 32768]"
    "pcmToAudioBuffer [3, 0] = Inr [3 / 32768]"
    by (simp_all add: pcmToAudioBuffer_def)
  have nd: "\<not> destroyed (init WebAudioPlaybackEngine_new)"
    by (simp add: init_def WebAudioPlaybackEngine_new_def)
  from clear_resets_and_reenters_preroll
    [OF playing_engine_def [THEN arg_cong [of _ _ clear]],
     of "[1, 0]" "[1 / 32768]" "[2, 0]" "[2 / 32768]" "[3, 0]" "[3 / 32768]" "dbl 7" "dbl 8" "dbl 9"]
  show ?thesis using p nd by (simp add: WebAudioPlaybackEngine_new_def duration_def SAMPLE_RATE_def)
qed

text \<open>
  The claim C5 as first stated has the first three chunks after a \<open>clear\<close> held and not
  scheduled. The third chunk is scheduled by the very call that enqueues it.
\<close>

theorem third_chunk_after_clear_is_scheduled:
  "\<not> (length (bufferedChunks
          (enqueue_all [(dbl 7, [1, 0]), (dbl 8, [2, 0]), (dbl 9, [3, 0])] (clear playing_engine))) = 3 \<and>
       scheduled (enqueue_all [(dbl 7, [1, 0]), (dbl 8, [2, 0]), (dbl 9, [3, 0])] (clear playing_engine)) = [])"
  by (simp add: playing_engine_value) (simp add: engine_defs double_order)

section \<open>Properties of the session state machine\<close>

lemma tag_values_Nil: "tag_values ty [] = []"
  by (simp add: tag_values_def)

lemma buildPhotoDescription_parts:
  "buildPhotoDescription photo =
     (if description_parts photo = [] then no_context_placeholder
      else js_join ''. '' (description_parts photo))"
  unfolding buildPhotoDescription_def description_parts_def Let_def
  by (cases "caption photo"; cases "tags photo"; cases "date_taken photo")
     (auto simp: tag_values_Nil)

lemma example_session_value:
  "example_session =
     \<lparr>state = Connecting, error = None,
      wsRef = Some \<lparr>ws_url = wsUrl example_props, readyState = OPEN, sent = []\<rparr>,
      playbackEngineRef = Some (onDrained (init WebAudioPlaybackEngine_new)),
      initialPhotoRef = Some example_photo, audioModeSetRef = True, currentTranscript = [],
      io_log = [SetAudioMode, RequestPermissions, CreatePlaybackEngine,
                OpenWebSocket (wsUrl example_props)]\<rparr>"
  by (simp add: example_session_def ws_opened_def connect_def js_falsy_def example_props_def
      granted_env_def Session_initial_def ws_is_open_def Let_def setupAudioMode_def
      clearTranscript_def setError_def setState_def web_engine_ops_def)

text \<open>
  Claim C2 fails on the code. On a message of type \<open>error\<close> the handler stores the message
  text as the session's error and returns: the state stays what it was, where the socket's
  \<open>onerror\<close> handler, like every other path that sets an error message, also moves to
  \<open>Error\<close>.
\<close>

theorem error_message_keeps_state:
  assumes "msg_type m = Some ''error''"
  shows "handleMessage ops env (StringData (ParsedMessage m)) s = (s\<lparr>error := msg_message m\<rparr>, None) \<and>
         state (fst (handleMessage ops env (StringData (ParsedMessage m)) s)) = state s \<and>
         state (ws_onerror s) = Error"
  using assms by (simp add: handleMessage_def setError_def setState_def ws_onerror_def)

theorem error_message_keeps_state_witness:
  "msg_type error_message = Some ''error'' \<and>
   state (setState Connected example_session) = Connected \<and>
   state (fst (handleMessage web_engine_ops example_env (StringData (ParsedMessage error_message))
                (setState Connected example_session))) = Connected \<and>
   error (fst (handleMessage web_engine_ops example_env (StringData (ParsedMessage error_message))
                (setState Connected example_session))) = Some ''Gemini session failed''"
proof -
  have m: "msg_type error_message = Some ''error''" by (simp add: error_message_def)
  from error_message_keeps_state
    [OF m, where ops = web_engine_ops and env = example_env
       and s = "setState Connected example_session"]
  show ?thesis using m by (simp add: setState_def error_message_def)
qed

text \<open>
  Claim C3, as amended. When the session id, the patient id or the configured API key is
  missing or empty, \<open>connect\<close> sets the error message and the state \<open>Error\<close> and does
  nothing else, whatever the awaited calls would have answered: no input or output is
  performed, no playback engine is created and no socket is opened. These three are the
  values \<open>connect\<close> tests; the token that goes into the socket's URL is not among them.
\<close>

theorem connect_fails_fast_on_missing_configuration:
  assumes "sessionId props \<in> {None, Some []} \<or> patientId props \<in> {None, Some []} \<or>
           GEMINI_API_KEY props \<in> {None, Some []}"
  shows "connect ops props env s =
           s\<lparr>state := Error, error := Some ''Missing session ID, patient ID, or Gemini API Key''\<rparr> \<and>
         state (connect ops props env s) = Error \<and>
         error (connect ops props env s) = Some ''Missing session ID, patient ID, or Gemini API Key'' \<and>
         io_log (connect ops props env s) = io_log s \<and>
         playbackEngineRef (connect ops props env s) = playbackEngineRef s \<and>
         wsRef (connect ops props env s) = wsRef s \<and>
         currentTranscript (connect ops props env s) = currentTranscript s"
proof -
  have "js_falsy (sessionId props) \<or> js_falsy (patientId props) \<or> js_falsy (GEMINI_API_KEY props)"
    using assms by (auto simp: js_falsy_def)
  then have "connect ops props env s =
      setState Error (setError (Some ''Missing session ID, patient ID, or Gemini API Key'') s)"
    by (simp add: connect_def)
  then show ?thesis by (simp add: setState_def setError_def)
qed

theorem connect_fails_fast_on_missing_configuration_witness:
  "sessionId (example_props\<lparr>sessionId := Some []\<rparr>) = Some [] \<and>
   state (connect web_engine_ops (example_props\<lparr>sessionId := Some []\<rparr>) granted_env
            (Session_initial (Some example_photo))) = Error \<and>
   io_log (connect web_engine_ops (example_props\<lparr>sessionId := Some []\<rparr>) granted_env
            (Session_initial (Some example_photo))) = [] \<and>
   wsRef (connect web_engine_ops (example_props\<lparr>sessionId := Some []\<rparr>) granted_env
            (Session_initial (Some example_photo))) = None"
proof -
  have h: "sessionId (example_props\<lparr>sessionId := Some []\<rparr>) \<in> {None, Some []} \<or>
           patientId (example_props\<lparr>sessionId := Some []\<rparr>) \<in> {None, Some []} \<or>
           GEMINI_API_KEY (example_props\<lparr>sessionId := Some []\<rparr>) \<in> {None, Some []}"
    by simp
  from connect_fails_fast_on_missing_configuration
    [OF h, where ops = web_engine_ops and env = granted_env
       and s = "Session_initial (Some example_photo)"]
  show ?thesis by (simp add: Session_initial_def)
qed

text \<open>
  The claim C3 as first stated has \<open>connect\<close> fail fast when the credential is missing. The
  credential of the transport is the token in the socket's URL, and \<open>connect\<close> does not
  test it: with the token missing and the three tested values present, \<open>connect\<close> sets the
  audio mode, asks for the permission, creates the engine and opens the socket with
  \<open>token=null\<close>, and the state is \<open>Connecting\<close>.
\<close>

theorem connect_with_missing_token_opens_socket:
  "token (example_props\<lparr>token := None\<rparr>) = None \<and>
   state (connect web_engine_ops (example_props\<lparr>token := None\<rparr>) granted_env
            (Session_initial (Some example_photo))) = Connecting \<and>
   error (connect web_engine_ops (example_props\<lparr>token := None\<rparr>) granted_env
            (Session_initial (Some example_photo))) = None \<and>
   io_log (connect web_engine_ops (example_props\<lparr>token := None\<rparr>) granted_env
            (Session_initial (Some example_photo))) =
     [SetAudioMode, RequestPermissions, CreatePlaybackEngine,
      OpenWebSocket ''ws://localhost:8000/api/voice/ws/voice/s1?patient_id=pt1&token=null''] \<and>
   map_option ws_url (wsRef (connect web_engine_ops (example_props\<lparr>token := None\<rparr>) granted_env
            (Session_initial (Some example_photo)))) =
     Some ''ws://localhost:8000/api/voice/ws/voice/s1?patient_id=pt1&token=null''"
  by (simp add: connect_def js_falsy_def example_props_def granted_env_def Session_initial_def
      ws_is_open_def Let_def setupAudioMode_def clearTranscript_def setError_def setState_def
      web_engine_ops_def wsUrl_def template_value_def)

text \<open>
  Claim C6, as amended. On the message \<open>{"type":"connected"}\<close> the state becomes
  \<open>Connected\<close>. When moreover the session is \<open>Connecting\<close>, an initial photo was supplied
  and the socket is open, exactly one frame is sent, a message of type \<open>text\<close> whose text
  embeds the photo's description between the two fixed sentences; the description joins
  the parts of the present fields (caption, people, location, event, date), and is the
  placeholder sentence when there is none.
\<close>

theorem connected_message_sends_one_greeting:
  assumes "msg_type m = Some ''connected''"
  shows "state (fst (handleMessage ops env (StringData (ParsedMessage m)) s)) = Connected \<and>
         (state s = Connecting \<and> initialPhotoRef s = Some photo \<and> wsRef s = Some ws \<and>
          readyState ws = OPEN \<longrightarrow>
            handleMessage ops env (StringData (ParsedMessage m)) s =
              (s\<lparr>state := Connected,
                  wsRef := Some (ws\<lparr>sent := sent ws @ [TextMessage (greeting_text photo)]\<rparr>)\<rparr>, None) \<and>
            greeting_text photo =
              ''Hello! I'' @ [CHR 0x27] @
              ''m looking at some photos and would love to share memories with you. '' @
              (if description_parts photo = [] then no_context_placeholder
               else js_join ''. '' (description_parts photo)) @ [CHR 0x0A, CHR 0x0A] @
              ''Please greet me warmly and gently ask if I recognize anything in this photo.'')"
proof (intro conjI impI)
  show "state (fst (handleMessage ops env (StringData (ParsedMessage m)) s)) = Connected"
    using assms
    by (cases "wsRef s"; cases "initialPhotoRef s")
       (simp_all add: handleMessage_def setState_def Let_def)
next
  assume h: "state s = Connecting \<and> initialPhotoRef s = Some photo \<and> wsRef s = Some ws \<and>
          readyState ws = OPEN"
  then show "handleMessage ops env (StringData (ParsedMessage m)) s =
              (s\<lparr>state := Connected,
                  wsRef := Some (ws\<lparr>sent := sent ws @ [TextMessage (greeting_text photo)]\<rparr>)\<rparr>, None)"
    using assms by (simp add: handleMessage_def setState_def Let_def ws_send_def)
next
  show "greeting_text photo =
              ''Hello! I'' @ [CHR 0x27] @
              ''m looking at some photos and would love to share memories with you. '' @
              (if description_parts photo = [] then no_context_placeholder
               else js_join ''. '' (description_parts photo)) @ [CHR 0x0A, CHR 0x0A] @
              ''Please greet me warmly and gently ask if I recognize anything in this photo.''"
    unfolding greeting_text_def buildPhotoDescription_parts ..
qed

theorem connected_message_sends_one_greeting_witness:
  "msg_type connected_message = Some ''connected'' \<and> state example_session = Connecting \<and>
   initialPhotoRef example_session = Some example_photo \<and>
   map_option readyState (wsRef example_session) = Some OPEN \<and>
   state (fst (handleMessage web_engine_ops example_env (StringData (ParsedMessage connected_message))
                example_session)) = Connected \<and>
   map_option sent (wsRef (fst (handleMessage web_engine_ops example_env
                (StringData (ParsedMessage connected_message)) example_session))) =
     Some [TextMessage (greeting_text example_photo)] \<and>
   description_parts example_photo =
     [''Caption: '' @ [CHR 0x22] @ ''Beach day'' @ [CHR 0x22], ''People in photo: Anna, Ben'',
      ''Location: Brighton'']"
proof -
  have m: "msg_type connected_message = Some ''connected''" by (simp add: connected_message_def)
  have d: "description_parts example_photo =
     [''Caption: '' @ [CHR 0x22] @ ''Beach day'' @ [CHR 0x22], ''People in photo: Anna, Ben'',
      ''Location: Brighton'']"
    by (simp add: description_parts_def example_photo_def tag_values_def)
  have h: "state example_session = Connecting \<and> initialPhotoRef example_session = Some example_photo \<and>
      wsRef example_session = Some \<lparr>ws_url = wsUrl example_props, readyState = OPEN, sent = []\<rparr> \<and>
      readyState \<lparr>ws_url = wsUrl example_props, readyState = OPEN, sent = []\<rparr> = OPEN"
    by (simp add: example_session_value)
  from connected_message_sends_one_greeting
    [OF m, where ops = web_engine_ops and env = example_env and s = example_session
       and photo = example_photo
       and ws = "\<lparr>ws_url = wsUrl example_props, readyState = OPEN, sent = []\<rparr>"] h
  have "handleMessage web_engine_ops example_env (StringData (ParsedMessage connected_message))
          example_session =
        (example_session\<lparr>state := Connected,
           wsRef := Some \<lparr>ws_url = wsUrl example_props, readyState = OPEN,
                          sent = [TextMessage (greeting_text example_photo)]\<rparr>\<rparr>, None)"
    by simp
  then show ?thesis using m d h by simp
qed

text \<open>
  The claim C6 as first stated asks for the greeting whenever the session is \<open>Connecting\<close>
  with an initial photo. After the hook's cleanup has closed the socket, an acknowledgement
  that arrives before the close completes makes the state \<open>Connected\<close> and nothing is sent.
\<close>

theorem connected_message_on_closing_socket_sends_nothing:
  "state (hook_cleanup example_session) = Connecting \<and>
   initialPhotoRef (hook_cleanup example_session) = Some example_photo \<and>
   map_option readyState (wsRef (hook_cleanup example_session)) = Some CLOSING \<and>
   state (fst (handleMessage web_engine_ops example_env (StringData (ParsedMessage connected_message))
                (hook_cleanup example_session))) = Connected \<and>
   map_option sent (wsRef (fst (handleMessage web_engine_ops example_env
                (StringData (ParsedMessage connected_message)) (hook_cleanup example_session)))) =
     Some []"
  by (simp add: example_session_value hook_cleanup_def ws_close_def handleMessage_def
      connected_message_def setState_def Let_def)

text \<open>
  Claim C7. \<open>sendPhotoChange\<close> changes nothing unless the socket is open. When it is, the
  call sends one \<open>photo_change\<close> message with the photo's id, caption, tag values and date,
  and appends to the transcript one entry of role \<open>system\<close> that records the view of the
  photo. Sending on an open socket returns nothing and does not raise, so the entry does not
  depend on what becomes of the frame.
\<close>

theorem sendPhotoChange_sends_and_records:
  "(\<not> ws_is_open s \<longrightarrow> sendPhotoChange env photo s = s) \<and>
   (wsRef s = Some ws \<and> readyState ws = OPEN \<longrightarrow>
      sendPhotoChange env photo s =
        s\<lparr>wsRef := Some (ws\<lparr>sent := sent ws @
              [PhotoChangeMessage (photo_id photo) (caption photo)
                 (map_option (map tag_value) (tags photo)) (date_taken photo)]\<rparr>),
           currentTranscript := currentTranscript s @
              [\<lparr>entry_role = Some ''system'', entry_text = Some (''Viewed photo '' @ photo_id photo),
                entry_timestamp = isoNow env, entry_photo_id = Some (photo_id photo)\<rparr>]\<rparr>)"
  by (cases "wsRef s")
     (simp_all add: sendPhotoChange_def ws_is_open_def Let_def ws_send_def addTranscriptEntry_def)

theorem sendPhotoChange_sends_and_records_witness:
  "\<not> ws_is_open (ws_onclose example_session) \<and>
   sendPhotoChange example_env example_photo (ws_onclose example_session) = ws_onclose example_session \<and>
   ws_is_open example_session \<and>
   map_option sent (wsRef (sendPhotoChange example_env example_photo example_session)) =
     Some [PhotoChangeMessage ''p1'' (Some ''Beach day'') (Some [''Anna'', ''Brighton'', ''Ben'']) None] \<and>
   map entry_role (currentTranscript (sendPhotoChange example_env example_photo example_session)) =
     [Some ''system'']"
proof -
  have c: "\<not> ws_is_open (ws_onclose example_session)"
    by (simp add: ws_onclose_def ws_is_open_def Let_def setState_def)
  have o: "wsRef example_session = Some \<lparr>ws_url = wsUrl example_props, readyState = OPEN, sent = []\<rparr> \<and>
      readyState \<lparr>ws_url = wsUrl example_props, readyState = OPEN, sent = []\<rparr> = OPEN"
    by (simp add: example_session_value)
  have w: "ws_is_open example_session" using o by (simp add: ws_is_open_def)
  from sendPhotoChange_sends_and_records
    [where s = "ws_onclose example_session" and env = example_env and photo = example_photo] c
  have 1: "sendPhotoChange example_env example_photo (ws_onclose example_session) =
           ws_onclose example_session" by blast
  from sendPhotoChange_sends_and_records
    [where s = example_session and env = example_env and photo = example_photo
       and ws = "\<lparr>ws_url = wsUrl example_props, readyState = OPEN, sent = []\<rparr>"] o
  have 2: "sendPhotoChange example_env example_photo example_session =
        example_session\<lparr>wsRef := Some \<lparr>ws_url = wsUrl example_props, readyState = OPEN, sent =
              [PhotoChangeMessage (photo_id example_photo) (caption example_photo)
                 (map_option (map tag_value) (tags example_photo)) (date_taken example_photo)]\<rparr>,
           currentTranscript := currentTranscript example_session @
              [\<lparr>entry_role = Some ''system'',
                entry_text = Some (''Viewed photo '' @ photo_id example_photo),
                entry_timestamp = isoNow example_env, entry_photo_id = Some (photo_id example_photo)\<rparr>]\<rparr>"
    by simp
  show ?thesis using c w 1 unfolding 2 by (simp add: example_photo_def example_session_value)
qed

text \<open>
  Claim C10. A binary message whose first byte is not \<open>0x01\<close> is discarded: the handler
  returns the session as it was (the same state, playback engine, transcript and error)
  and no exception escapes.
\<close>

theorem non_audio_binary_message_is_discarded:
  assumes "messageType \<noteq> 1"
  shows "handleMessage ops env (ArrayBufferData (messageType # rest)) s = (s, None) \<and>
         state (fst (handleMessage ops env (ArrayBufferData (messageType # rest)) s)) = state s \<and>
         playbackEngineRef (fst (handleMessage ops env (ArrayBufferData (messageType # rest)) s)) =
           playbackEngineRef s \<and>
         currentTranscript (fst (handleMessage ops env (ArrayBufferData (messageType # rest)) s)) =
           currentTranscript s \<and>
         error (fst (handleMessage ops env (ArrayBufferData (messageType # rest)) s)) = error s"
  using assms by (simp add: handleMessage_def)

theorem non_audio_binary_message_is_discarded_witness:
  "(2 :: byte) \<noteq> 1 \<and>
   handleMessage web_engine_ops example_env (ArrayBufferData [2, 0, 0, 0, 0, 0, 0, 0, 0, 0, 0, 0, 0, 7, 0])
     example_session = (example_session, None) \<and>
   state (fst (handleMessage web_engine_ops example_env
     (ArrayBufferData [1, 0, 0, 0, 0, 0, 0, 0, 0, 0, 0, 0, 0, 7, 0]) example_session)) = Speaking"
proof -
  have h: "(2 :: byte) \<noteq> 1" by simp
  have a: "state (fst (handleMessage web_engine_ops example_env
     (ArrayBufferData [1, 0, 0, 0, 0, 0, 0, 0, 0, 0, 0, 0, 0, 7, 0]) example_session)) = Speaking"
    by (simp add: handleMessage_def example_session_value setState_def Let_def)
  from non_audio_binary_message_is_discarded
    [OF h, where ops = web_engine_ops and env = example_env and s = example_session
       and rest = "[0, 0, 0, 0, 0, 0, 0, 0, 0, 0, 0, 0, 7, 0]"]
  show ?thesis using a by simp
qed

end
